theory Spec2Isabelle
  imports
    Main
    "HOL-Library.Char_ord"
    "HOL-Library.List_Lexorder"
    "HOL-Library.AList"
    "HOL-Library.Multiset"
begin

section \<open>Invites and the invites database (twistedcaldav/sharing.py)\<close>

text \<open>
  \<^verbatim>\<open>class Invite\<close>: the five attributes, in the order of \<^verbatim>\<open>Invite.__init__\<close>.
  Access and state are the strings the source stores (\<^verbatim>\<open>"read-only"\<close>, \<^verbatim>\<open>"NEEDS-ACTION"\<close>, ...).
  User ids are byte strings; their order (SQL \<^verbatim>\<open>order by\<close>, Python \<^verbatim>\<open>sorted\<close>) is the
  lexicographic order of the bytes.
\<close>

datatype invite =
  Invite (inviteuid: string) (userid: string) (access: string) (state: string) (summary: string)

text \<open>
  The table \<^verbatim>\<open>INVITE\<close> of \<^verbatim>\<open>InvitesDatabase\<close> is the list of its rows, oldest first.
  \<^verbatim>\<open>_db_init_data_tables\<close> declares both \<^verbatim>\<open>INVITEUID\<close> and \<^verbatim>\<open>USERID\<close> as
  \<^verbatim>\<open>text unique\<close>; \<^verbatim>\<open>db_ok\<close> is that schema constraint.
\<close>

definition db_ok :: "invite list \<Rightarrow> bool" where
  "db_ok db = (distinct (map userid db) \<and> distinct (map inviteuid db))"

text \<open>\<^verbatim>\<open>select * from INVITE order by USERID\<close>\<close>

definition allRecords :: "invite list \<Rightarrow> invite list" where
  "allRecords db = sort_key userid db"

text \<open>
  \<^verbatim>\<open>insert or replace into INVITE (...) values (...)\<close>: the rows that clash with the new
  row on either unique column are deleted, then the new row is inserted.
\<close>

definition addOrUpdateRecord :: "invite \<Rightarrow> invite list \<Rightarrow> invite list" where
  "addOrUpdateRecord r db =
     filter (\<lambda>x. userid x \<noteq> userid r \<and> inviteuid x \<noteq> inviteuid r) db @ [r]"

text \<open>\<^verbatim>\<open>delete from INVITE where USERID = :1\<close>\<close>

definition removeRecordForUserID :: "string \<Rightarrow> invite list \<Rightarrow> invite list" where
  "removeRecordForUserID u db = filter (\<lambda>x. userid x \<noteq> u) db"

text \<open>\<^verbatim>\<open>delete from INVITE where INVITEUID = :1\<close>\<close>

definition removeRecordForInviteUID :: "string \<Rightarrow> invite list \<Rightarrow> invite list" where
  "removeRecordForInviteUID i db = filter (\<lambda>x. inviteuid x \<noteq> i) db"

section \<open>The shared collection (SharingMixin)\<close>

text \<open>
  The two access elements of a request, and \<^verbatim>\<open>inviteAccessMapFromXML\<close>, the inverse of
  \<^verbatim>\<open>inviteAccessMapToXML\<close>.
\<close>

datatype accessElement = ReadAccess | ReadWriteAccess

fun inviteAccessMapFromXML :: "accessElement \<Rightarrow> string" where
  "inviteAccessMapFromXML ReadAccess = ''read-only''"
| "inviteAccessMapFromXML ReadWriteAccess = ''read-write''"

text \<open>
  The calls a request makes on the collection, in the order they are made; the log is kept
  beside the state so that the order of the phases can be stated.
\<close>

datatype call =
  UninviteUserToShare string
| InviteUserToShare string
| InviteUserUpdateToShare string
| ValidateInvites

text \<open>
  The state of one collection: whether its resource type holds \<^verbatim>\<open>SharedOwner\<close>, the rows
  of its invites database, how many times \<^verbatim>\<open>uuid4()\<close> has been drawn, and the call log.
\<close>

record collection =
  sharedOwner :: bool
  invitesDB :: "invite list"
  uuidsDrawn :: nat
  calls :: "call list"

text \<open>
  A principal resource, as far as sharing looks at it. The directory lookup
  \<^verbatim>\<open>principalForCalendarUserAddress\<close> is a parameter of the model (\<open>pfcua\<close>), and so is the
  source of invite UIDs (\<open>uuid4 n\<close> is the n-th UID drawn).
\<close>

datatype principal = Principal (principalURL: string)

definition validUserIDForShare :: "(string \<Rightarrow> principal option) \<Rightarrow> string \<Rightarrow> string option" where
  "validUserIDForShare pfcua u =
     (case pfcua u of Some p \<Rightarrow> Some (principalURL p) | None \<Rightarrow> None)"

definition isShared :: "collection \<Rightarrow> bool" where
  "isShared c = sharedOwner c"

definition upgradeToShare :: "collection \<Rightarrow> bool \<times> collection" where
  "upgradeToShare c = (True, c\<lparr>sharedOwner := True\<rparr>)"

definition downgradeFromShare :: "collection \<Rightarrow> bool \<times> collection" where
  "downgradeFromShare c = (True, c\<lparr>sharedOwner := False, invitesDB := []\<rparr>)"

text \<open>
  \<^verbatim>\<open>validateInvites\<close>: the loop runs over the records read before it starts; each record
  whose user id does not validate and whose state is not \<^verbatim>\<open>"INVALID"\<close> is written back with
  that state.
\<close>

fun validateInvites_loop ::
  "(string \<Rightarrow> principal option) \<Rightarrow> invite list \<Rightarrow> invite list \<Rightarrow> invite list" where
  "validateInvites_loop pfcua [] db = db"
| "validateInvites_loop pfcua (r # records) db =
     (if validUserIDForShare pfcua (userid r) = None \<and> state r \<noteq> ''INVALID''
      then validateInvites_loop pfcua records
             (addOrUpdateRecord
                (Invite (inviteuid r) (userid r) (access r) ''INVALID'' (summary r)) db)
      else validateInvites_loop pfcua records db)"

definition validateInvites :: "(string \<Rightarrow> principal option) \<Rightarrow> collection \<Rightarrow> collection" where
  "validateInvites pfcua c =
     c\<lparr>invitesDB := validateInvites_loop pfcua (allRecords (invitesDB c)) (invitesDB c),
       calls := calls c @ [ValidateInvites]\<rparr>"

definition inviteSingleUserToShare ::
  "(nat \<Rightarrow> string) \<Rightarrow> string \<Rightarrow> accessElement \<Rightarrow> string \<Rightarrow> collection \<Rightarrow> bool \<times> collection" where
  "inviteSingleUserToShare uuid4 u ace summ c =
     (let inviteuid' = uuid4 (uuidsDrawn c) in
      (True,
       c\<lparr>invitesDB :=
            addOrUpdateRecord
              (Invite inviteuid' u (inviteAccessMapFromXML ace) ''NEEDS-ACTION'' summ)
              (invitesDB c),
         uuidsDrawn := Suc (uuidsDrawn c)\<rparr>))"

definition uninviteSingleUserFromShare :: "string \<Rightarrow> collection \<Rightarrow> bool \<times> collection" where
  "uninviteSingleUserFromShare u c =
     (True, c\<lparr>invitesDB := removeRecordForUserID u (invitesDB c)\<rparr>)"

definition inviteSingleUserUpdateToShare ::
  "(nat \<Rightarrow> string) \<Rightarrow> string \<Rightarrow> accessElement \<Rightarrow> string \<Rightarrow> collection \<Rightarrow> bool \<times> collection" where
  "inviteSingleUserUpdateToShare uuid4 u aceNEW summ c =
     inviteSingleUserToShare uuid4 u aceNEW summ c"

text \<open>
  \<^verbatim>\<open>inviteUserToShare\<close>: the user id is validated first; a valid one is wrapped in a
  one-element list and invited, and the \<^verbatim>\<open>DeferredList\<close> callback answers \<^verbatim>\<open>True\<close>.
\<close>

definition inviteUserToShare ::
  "(string \<Rightarrow> principal option) \<Rightarrow> (nat \<Rightarrow> string) \<Rightarrow>
   string \<Rightarrow> accessElement \<Rightarrow> string \<Rightarrow> collection \<Rightarrow> bool \<times> collection" where
  "inviteUserToShare pfcua uuid4 u ace summ c =
     (let c' = c\<lparr>calls := calls c @ [InviteUserToShare u]\<rparr> in
      case validUserIDForShare pfcua u of
        None \<Rightarrow> (False, c')
      | Some u' \<Rightarrow> (True, snd (inviteSingleUserToShare uuid4 u' ace summ c')))"

text \<open>
  \<^verbatim>\<open>uninviteUserToShare\<close> does not validate the user id and does not look at the access
  (\<^verbatim>\<open>None\<close>, or the set of access elements of the remove operation).
\<close>

definition uninviteUserToShare ::
  "string \<Rightarrow> accessElement set option \<Rightarrow> collection \<Rightarrow> bool \<times> collection" where
  "uninviteUserToShare u ace c =
     (let c' = c\<lparr>calls := calls c @ [UninviteUserToShare u]\<rparr> in
      (True, snd (uninviteSingleUserFromShare u c')))"

definition inviteUserUpdateToShare ::
  "(string \<Rightarrow> principal option) \<Rightarrow> (nat \<Rightarrow> string) \<Rightarrow>
   string \<Rightarrow> accessElement set option \<Rightarrow> accessElement \<Rightarrow> string \<Rightarrow> collection \<Rightarrow>
   bool \<times> collection" where
  "inviteUserUpdateToShare pfcua uuid4 u aceOLD aceNEW summ c =
     (let c' = c\<lparr>calls := calls c @ [InviteUserUpdateToShare u]\<rparr> in
      case validUserIDForShare pfcua u of
        None \<Rightarrow> (False, c')
      | Some u' \<Rightarrow> (True, snd (inviteSingleUserUpdateToShare uuid4 u' aceNEW summ c')))"

section \<open>The sharing request (xmlPOSTNoAuth)\<close>

text \<open>
  The elements of a request document that the handlers tell apart; every other element is
  \<open>OtherElement\<close>. \<open>AccessElement\<close> is an element that is an instance of
  \<^verbatim>\<open>customxml.ReadAccess\<close> or \<^verbatim>\<open>customxml.ReadWriteAccess\<close>.
\<close>

datatype element =
  PCDATAElement string
| HRef "element list"
| InviteSummary "element list"
| AccessElement accessElement
| InviteSet "element list"
| InviteRemove "element list"
| OtherElement

text \<open>
  What can be raised while the document is handled: the \<^verbatim>\<open>HTTPError\<close> of a missing field
  (with its message), the \<^verbatim>\<open>TypeError\<close> of unpacking \<^verbatim>\<open>None\<close>, and the \<^verbatim>\<open>KeyError\<close>
  of a dictionary lookup.
\<close>

datatype error = HTTPError string | TypeError | KeyError

text \<open>The inner loops over the children of an href or a summary: the last text child wins.\<close>

fun pcdata :: "string option \<Rightarrow> element list \<Rightarrow> string option" where
  "pcdata v [] = v"
| "pcdata v (PCDATAElement d # items) = pcdata (Some d) items"
| "pcdata v (_ # items) = pcdata v items"

fun handleInviteSet_loop ::
  "element list \<Rightarrow> string option \<times> accessElement option \<times> string option \<Rightarrow>
   string option \<times> accessElement option \<times> string option" where
  "handleInviteSet_loop [] v = v"
| "handleInviteSet_loop (HRef ch # items) (u, a, s) =
     handleInviteSet_loop items (pcdata u ch, a, s)"
| "handleInviteSet_loop (InviteSummary ch # items) (u, a, s) =
     handleInviteSet_loop items (u, a, pcdata s ch)"
| "handleInviteSet_loop (AccessElement x # items) (u, a, s) =
     handleInviteSet_loop items (u, Some x, s)"
| "handleInviteSet_loop (_ # items) v = handleInviteSet_loop items v"

text \<open>
  \<^verbatim>\<open>_handleInviteSet\<close>. The triple is returned when all three values are true in Python's
  sense (an element object is true; a string is true when it is not empty). Otherwise the
  first value that is \<^verbatim>\<open>None\<close> names the error; when none is \<^verbatim>\<open>None\<close> (an empty user
  id or summary) the function falls off its end and the caller's unpacking of \<^verbatim>\<open>None\<close>
  raises \<^verbatim>\<open>TypeError\<close>.
\<close>

definition handleInviteSet :: "element list \<Rightarrow> error + (string \<times> accessElement \<times> string)" where
  "handleInviteSet children =
     (case handleInviteSet_loop children (None, None, None) of
        (None, _, _) \<Rightarrow> Inl (HTTPError ''missing href'')
      | (Some u, None, _) \<Rightarrow> Inl (HTTPError ''missing access'')
      | (Some u, Some a, None) \<Rightarrow> Inl (HTTPError ''missing summary'')
      | (Some u, Some a, Some s) \<Rightarrow>
          if u \<noteq> [] \<and> s \<noteq> [] then Inr (u, a, s) else Inl TypeError)"

fun handleInviteRemove_loop ::
  "element list \<Rightarrow> string option \<times> accessElement list \<Rightarrow> string option \<times> accessElement list" where
  "handleInviteRemove_loop [] v = v"
| "handleInviteRemove_loop (HRef ch # items) (u, acc) =
     handleInviteRemove_loop items (pcdata u ch, acc)"
| "handleInviteRemove_loop (AccessElement x # items) (u, acc) =
     handleInviteRemove_loop items (u, acc @ [x])"
| "handleInviteRemove_loop (_ # items) v = handleInviteRemove_loop items v"

definition handleInviteRemove :: "element list \<Rightarrow> error + (string \<times> accessElement set option)" where
  "handleInviteRemove children =
     (case handleInviteRemove_loop children (None, []) of
        (None, _) \<Rightarrow> Inl (HTTPError ''missing href'')
      | (Some u, acc) \<Rightarrow> Inr (u, if acc = [] then None else Some (set acc)))"

text \<open>
  The three dictionaries of \<^verbatim>\<open>_processInviteDoc\<close> are association lists with distinct keys:
  \<^verbatim>\<open>d[k] = v\<close> is \<open>AList.update\<close>, \<^verbatim>\<open>del d[k]\<close> is \<open>AList.delete\<close>, \<^verbatim>\<open>d[k]\<close> is
  \<open>map_of\<close>. A Python 2 dictionary iterates in an order the language leaves open; the model
  iterates in the order of first insertion.
\<close>

type_synonym setDict = "(string \<times> (accessElement \<times> string)) list"
type_synonym removeDict = "(string \<times> accessElement set option) list"
type_synonym updateinviteDict =
  "(string \<times> (accessElement set option \<times> accessElement \<times> string)) list"

text \<open>The first loop of \<^verbatim>\<open>_processInviteDoc\<close>: every operation is parsed before any is applied.\<close>

fun parseInviteDoc :: "element list \<Rightarrow> setDict \<Rightarrow> removeDict \<Rightarrow> error + (setDict \<times> removeDict)" where
  "parseInviteDoc [] sd rd = Inr (sd, rd)"
| "parseInviteDoc (InviteSet ch # items) sd rd =
     (case handleInviteSet ch of
        Inl e \<Rightarrow> Inl e
      | Inr (u, a, s) \<Rightarrow> parseInviteDoc items (AList.update u (a, s) sd) rd)"
| "parseInviteDoc (InviteRemove ch # items) sd rd =
     (case handleInviteRemove ch of
        Inl e \<Rightarrow> Inl e
      | Inr (u, a) \<Rightarrow> parseInviteDoc items sd (AList.update u a rd))"
| "parseInviteDoc (_ # items) sd rd = parseInviteDoc items sd rd"

definition sameUseridInRemoveAndSet :: "setDict \<Rightarrow> removeDict \<Rightarrow> string list" where
  "sameUseridInRemoveAndSet sd rd = filter (\<lambda>u. u \<in> set (map fst sd)) (map fst rd)"

text \<open>The loop over \<^verbatim>\<open>sameUseridInRemoveAndSet\<close>.\<close>

fun collapse ::
  "string list \<Rightarrow> setDict \<Rightarrow> removeDict \<Rightarrow> updateinviteDict \<Rightarrow>
   error + (setDict \<times> removeDict \<times> updateinviteDict)" where
  "collapse [] sd rd ud = Inr (sd, rd, ud)"
| "collapse (u # us) sd rd ud =
     (case map_of rd u of
        None \<Rightarrow> Inl KeyError
      | Some removeACL \<Rightarrow>
          (case map_of sd u of
             None \<Rightarrow> Inl KeyError
           | Some (newACL, summ) \<Rightarrow>
               collapse us (AList.delete u sd) (AList.delete u rd)
                 (AList.update u (removeACL, newACL, summ) ud)))"

text \<open>The three loops that apply the operations, each adding the user id to one of the two sets.\<close>

fun removeLoop ::
  "removeDict \<Rightarrow> collection \<Rightarrow> string set \<times> string set \<Rightarrow> collection \<times> string set \<times> string set" where
  "removeLoop [] c (okusers, badusers) = (c, okusers, badusers)"
| "removeLoop ((u, ace) # items) c (okusers, badusers) =
     (case uninviteUserToShare u ace c of
        (result, c') \<Rightarrow>
          removeLoop items c'
            (if result then (insert u okusers, badusers) else (okusers, insert u badusers)))"

fun setLoop ::
  "(string \<Rightarrow> principal option) \<Rightarrow> (nat \<Rightarrow> string) \<Rightarrow>
   setDict \<Rightarrow> collection \<Rightarrow> string set \<times> string set \<Rightarrow> collection \<times> string set \<times> string set" where
  "setLoop pfcua uuid4 [] c (okusers, badusers) = (c, okusers, badusers)"
| "setLoop pfcua uuid4 ((u, (ace, summ)) # items) c (okusers, badusers) =
     (case inviteUserToShare pfcua uuid4 u ace summ c of
        (result, c') \<Rightarrow>
          setLoop pfcua uuid4 items c'
            (if result then (insert u okusers, badusers) else (okusers, insert u badusers)))"

fun updateLoop ::
  "(string \<Rightarrow> principal option) \<Rightarrow> (nat \<Rightarrow> string) \<Rightarrow>
   updateinviteDict \<Rightarrow> collection \<Rightarrow> string set \<times> string set \<Rightarrow>
   collection \<times> string set \<times> string set" where
  "updateLoop pfcua uuid4 [] c (okusers, badusers) = (c, okusers, badusers)"
| "updateLoop pfcua uuid4 ((u, (removeACL, newACL, summ)) # items) c (okusers, badusers) =
     (case inviteUserUpdateToShare pfcua uuid4 u removeACL newACL summ c of
        (result, c') \<Rightarrow>
          updateLoop pfcua uuid4 items c'
            (if result then (insert u okusers, badusers) else (okusers, insert u badusers)))"

definition applyInvites ::
  "(string \<Rightarrow> principal option) \<Rightarrow> (nat \<Rightarrow> string) \<Rightarrow>
   setDict \<Rightarrow> removeDict \<Rightarrow> updateinviteDict \<Rightarrow> collection \<Rightarrow>
   collection \<times> string set \<times> string set" where
  "applyInvites pfcua uuid4 sd rd ud c =
     (case removeLoop rd c ({}, {}) of
        (c1, ob1) \<Rightarrow>
          (case setLoop pfcua uuid4 sd c1 ob1 of
             (c2, ob2) \<Rightarrow> updateLoop pfcua uuid4 ud c2 ob2))"

datatype responsecode = OK | FORBIDDEN | BAD_REQUEST

datatype response =
  Response responsecode
| ErrorResponse responsecode string
| MultiStatusResponse "(string \<times> responsecode) list"

text \<open>The response built at the end of \<^verbatim>\<open>_processInviteDoc\<close>.\<close>

definition makeResponse :: "string set \<Rightarrow> string set \<Rightarrow> response" where
  "makeResponse okusers badusers =
     (if badusers \<noteq> {}
      then MultiStatusResponse
             (map (\<lambda>u. (u, OK)) (sorted_list_of_set okusers) @
              map (\<lambda>u. (u, FORBIDDEN)) (sorted_list_of_set badusers))
      else Response OK)"

text \<open>
  \<^verbatim>\<open>_processInviteDoc\<close>: parse every operation, collapse the user ids that are both removed
  and set, apply the removals, the sets and the updates, validate all invites, answer.
  An exception leaves the collection as it was.
\<close>

definition processInviteDoc ::
  "(string \<Rightarrow> principal option) \<Rightarrow> (nat \<Rightarrow> string) \<Rightarrow>
   element list \<Rightarrow> collection \<Rightarrow> collection \<times> (error + response)" where
  "processInviteDoc pfcua uuid4 invitedoc c =
     (case parseInviteDoc invitedoc [] [] of
        Inl e \<Rightarrow> (c, Inl e)
      | Inr (setDict, removeDict) \<Rightarrow>
          (case collapse (sameUseridInRemoveAndSet setDict removeDict) setDict removeDict [] of
             Inl e \<Rightarrow> (c, Inl e)
           | Inr (sd, rd, ud) \<Rightarrow>
               (case applyInvites pfcua uuid4 sd rd ud c of
                  (c3, okusers, badusers) \<Rightarrow>
                    (validateInvites pfcua c3, Inr (makeResponse okusers badusers)))))"

text \<open>\<^verbatim>\<open>_handleErrorResponse\<close>\<close>

fun handleErrorResponse :: "error \<Rightarrow> response" where
  "handleErrorResponse (HTTPError msg) = ErrorResponse FORBIDDEN msg"
| "handleErrorResponse _ = Response BAD_REQUEST"

text \<open>
  \<^verbatim>\<open>_handleInvite\<close>: a collection that is not shared yet is upgraded first
  (\<^verbatim>\<open>_autoShare\<close>), then the document is processed; an exception becomes a response.
\<close>

definition handleInvite ::
  "(string \<Rightarrow> principal option) \<Rightarrow> (nat \<Rightarrow> string) \<Rightarrow>
   element list \<Rightarrow> collection \<Rightarrow> collection \<times> response" where
  "handleInvite pfcua uuid4 invitedoc c =
     (let c0 = (if \<not> isShared c then snd (upgradeToShare c) else c) in
      case processInviteDoc pfcua uuid4 invitedoc c0 of
        (c', Inl e) \<Rightarrow> (c', handleErrorResponse e)
      | (c', Inr r) \<Rightarrow> (c', r))"

section \<open>Principal resources (twistedcaldav/directory/test/test_principal.py)\<close>

text \<open>
  The resources of the principal hierarchy that \<^verbatim>\<open>test_hierarchy\<close> walks: the provisioning
  resource of a directory service, made from its URL; its child for a record type; and the
  child of that for the short name of a record.
\<close>

datatype resource =
  DirectoryPrincipalProvisioningResource string
| DirectoryPrincipalTypeResource string string
| DirectoryPrincipalResource string string string





text \<open>
  The principals and privileges of \<^verbatim>\<open>_authReadOnlyPrivileges\<close>, and its table: for each
  principal and privilege, whether \<^verbatim>\<open>checkPrivileges\<close> must succeed.
\<close>

datatype principalElement = AllPrincipals | Unauthenticated | Authenticated | PrincipalHRef string

datatype privilege = Read | Write

definition authReadOnlyPrivileges :: "(principalElement \<times> privilege \<times> bool) list" where
  "authReadOnlyPrivileges =
     [(AllPrincipals, Read, False),
      (AllPrincipals, Write, False),
      (Unauthenticated, Read, False),
      (Unauthenticated, Write, False),
      (Authenticated, Read, True),
      (Authenticated, Write, False)]"

text \<open>
  Modelled from the spec: the privilege check and the default access control list of the
  principal resources are code of twext.web2.dav and twistedcaldav/directory/principal.py,
  which is not among the sources. An access control list is a sequence of entries (matcher,
  privileges, grant or deny). A matcher matches the requesting principal if that is exactly
  the named principal, or it is authenticated and the matcher is Authenticated, or the
  matcher is All, or the matcher is Unauthenticated and the requesting principal is absent
  (the Unauthenticated principal). The first entry that matches and holds the privilege
  decides; no such entry denies. By default authenticated principals are granted read and
  nothing else is granted.
\<close>

datatype ace = ACE principalElement "privilege list" bool

fun authenticated :: "principalElement \<Rightarrow> bool" where
  "authenticated Authenticated = True"
| "authenticated (PrincipalHRef h) = True"
| "authenticated _ = False"

fun matchPrincipal :: "principalElement \<Rightarrow> principalElement \<Rightarrow> bool" where
  "matchPrincipal requesting AllPrincipals = True"
| "matchPrincipal requesting Authenticated = authenticated requesting"
| "matchPrincipal requesting Unauthenticated = (requesting = Unauthenticated)"
| "matchPrincipal requesting (PrincipalHRef h) = (requesting = PrincipalHRef h)"

fun checkPrivileges :: "ace list \<Rightarrow> principalElement \<Rightarrow> privilege \<Rightarrow> bool" where
  "checkPrivileges [] requesting p = False"
| "checkPrivileges (ACE matcher privileges grant # acl) requesting p =
     (if matchPrincipal requesting matcher \<and> p \<in> set privileges then grant
      else checkPrivileges acl requesting p)"

definition defaultAccessControlList :: "resource \<Rightarrow> ace list" where
  "defaultAccessControlList r = [ACE Authenticated [Read] True]"

section \<open>Auxiliary notions for the statements\<close>

text \<open>
  What one turn of the loop of \<^verbatim>\<open>validateInvites\<close> does to a record: the state becomes
  INVALID when the user id resolves to no principal and the state is not INVALID yet.
\<close>

definition invalidate :: "(string \<Rightarrow> principal option) \<Rightarrow> invite \<Rightarrow> invite" where
  "invalidate pfcua r =
     (if validUserIDForShare pfcua (userid r) = None \<and> state r \<noteq> ''INVALID''
      then Invite (inviteuid r) (userid r) (access r) ''INVALID'' (summary r) else r)"

text \<open>
  Every invite uid in the database was produced by one of the calls of \<^verbatim>\<open>uuid4()\<close> made
  so far.
\<close>

definition drawnBefore :: "(nat \<Rightarrow> string) \<Rightarrow> collection \<Rightarrow> bool" where
  "drawnBefore uuid4 c = (\<forall>r \<in> set (invitesDB c). \<exists>k < uuidsDrawn c. inviteuid r = uuid4 k)"

section \<open>A worked request\<close>

text \<open>
  A directory that knows one user, by her mail address and by her principal URL.
\<close>

definition example_directory :: "string \<Rightarrow> principal option" where
  "example_directory u =
     (if u = ''mailto:alice@example.com'' \<or> u = ''/principals/users/alice''
      then Some (Principal ''/principals/users/alice'') else None)"

text \<open>A supply of identifiers, all different.\<close>

definition example_uuid4 :: "nat \<Rightarrow> string" where
  "example_uuid4 n = replicate (Suc n) CHR ''u''"

text \<open>
  A request that sets and removes alice, removes bob and sets a user the directory does not
  know.
\<close>

definition example_request :: "element list" where
  "example_request =
     [InviteSet [HRef [PCDATAElement ''mailto:alice@example.com''],
                 AccessElement ReadWriteAccess, InviteSummary [PCDATAElement ''s'']],
      InviteRemove [HRef [PCDATAElement ''mailto:alice@example.com'']],
      InviteRemove [HRef [PCDATAElement ''bob'']],
      InviteSet [HRef [PCDATAElement ''nobody''],
                 AccessElement ReadAccess, InviteSummary [PCDATAElement ''x'']]]"

text \<open>
  A shared collection whose database holds an accepted invite of alice and one of carol, a
  user the directory does not know.
\<close>

definition example_collection :: collection where
  "example_collection =
     \<lparr>sharedOwner = True,
      invitesDB = [Invite ''u'' ''/principals/users/alice'' ''read-only'' ''ACCEPTED'' ''a'',
                   Invite ''uu'' ''carol'' ''read-only'' ''ACCEPTED'' ''c''],
      uuidsDrawn = 2, calls = []\<rparr>"

text \<open>
  A request that removes and sets carol, whose invite is in the database and whom the
  directory does not know.
\<close>

definition example_stale_request :: "element list" where
  "example_stale_request =
     [InviteRemove [HRef [PCDATAElement ''carol'']],
      InviteSet [HRef [PCDATAElement ''carol''],
                 AccessElement ReadWriteAccess, InviteSummary [PCDATAElement ''t'']]]"

section \<open>Properties of the model\<close>

subsection \<open>The store\<close>

lemma db_ok_addOrUpdateRecord: "db_ok db \<Longrightarrow> db_ok (addOrUpdateRecord r db)"
  by (auto simp: db_ok_def addOrUpdateRecord_def distinct_map_filter)

lemma db_ok_filter: "db_ok db \<Longrightarrow> db_ok (filter P db)"
  by (simp add: db_ok_def distinct_map_filter)

lemma filter_userid_addOrUpdateRecord:
  "filter (\<lambda>x. userid x = userid r) (addOrUpdateRecord r db) = [r]"
  by (auto simp: addOrUpdateRecord_def filter_empty_conv)

lemma filter_other_addOrUpdateRecord:
  "u \<noteq> userid r \<Longrightarrow>
   filter (\<lambda>x. userid x = u) (addOrUpdateRecord r db) =
   filter (\<lambda>x. inviteuid x \<noteq> inviteuid r) (filter (\<lambda>x. userid x = u) db)"
  by (auto simp: addOrUpdateRecord_def intro: filter_cong)

subsection \<open>The operations on one user\<close>

lemma uninviteUserToShare_eq:
  "uninviteUserToShare u ace c =
     (True, c\<lparr>invitesDB := removeRecordForUserID u (invitesDB c),
              calls := calls c @ [UninviteUserToShare u]\<rparr>)"
  by (simp add: uninviteUserToShare_def uninviteSingleUserFromShare_def)

lemma inviteUserToShare_None:
  "validUserIDForShare pfcua u = None \<Longrightarrow>
   inviteUserToShare pfcua uuid4 u ace summ c = (False, c\<lparr>calls := calls c @ [InviteUserToShare u]\<rparr>)"
  by (simp add: inviteUserToShare_def)

lemma inviteUserToShare_Some:
  "validUserIDForShare pfcua u = Some p \<Longrightarrow>
   inviteUserToShare pfcua uuid4 u ace summ c =
     (True, c\<lparr>invitesDB :=
                addOrUpdateRecord
                  (Invite (uuid4 (uuidsDrawn c)) p (inviteAccessMapFromXML ace) ''NEEDS-ACTION'' summ)
                  (invitesDB c),
              uuidsDrawn := Suc (uuidsDrawn c),
              calls := calls c @ [InviteUserToShare u]\<rparr>)"
  by (simp add: inviteUserToShare_def inviteSingleUserToShare_def)

lemma inviteUserUpdateToShare_None:
  "validUserIDForShare pfcua u = None \<Longrightarrow>
   inviteUserUpdateToShare pfcua uuid4 u aceOLD aceNEW summ c =
     (False, c\<lparr>calls := calls c @ [InviteUserUpdateToShare u]\<rparr>)"
  by (simp add: inviteUserUpdateToShare_def)

lemma inviteUserUpdateToShare_Some:
  "validUserIDForShare pfcua u = Some p \<Longrightarrow>
   inviteUserUpdateToShare pfcua uuid4 u aceOLD aceNEW summ c =
     (True, c\<lparr>invitesDB :=
                addOrUpdateRecord
                  (Invite (uuid4 (uuidsDrawn c)) p (inviteAccessMapFromXML aceNEW) ''NEEDS-ACTION'' summ)
                  (invitesDB c),
              uuidsDrawn := Suc (uuidsDrawn c),
              calls := calls c @ [InviteUserUpdateToShare u]\<rparr>)"
  by (simp add: inviteUserUpdateToShare_def inviteSingleUserUpdateToShare_def
      inviteSingleUserToShare_def)

subsection \<open>The three loops\<close>

lemma removeLoop_eq:
  "removeLoop rd c (okusers, badusers) =
     (c\<lparr>invitesDB := filter (\<lambda>x. userid x \<notin> set (map fst rd)) (invitesDB c),
        calls := calls c @ map UninviteUserToShare (map fst rd)\<rparr>,
      okusers \<union> set (map fst rd), badusers)"
proof (induction rd arbitrary: c okusers badusers)
  case Nil
  show ?case by simp
next
  case (Cons a rd)
  obtain u ace where a: "a = (u, ace)" by (cases a)
  show ?case
    by (simp add: a uninviteUserToShare_eq Cons.IH removeRecordForUserID_def conj_commute)
qed

lemma setLoop_Cons:
  "setLoop pfcua uuid4 ((u, (ace, summ)) # items) c (okusers, badusers) =
     setLoop pfcua uuid4 items (snd (inviteUserToShare pfcua uuid4 u ace summ c))
       (if validUserIDForShare pfcua u = None then (okusers, insert u badusers)
        else (insert u okusers, badusers))"
  by (cases "validUserIDForShare pfcua u")
    (simp_all add: inviteUserToShare_None inviteUserToShare_Some)

lemma updateLoop_Cons:
  "updateLoop pfcua uuid4 ((u, (aceOLD, aceNEW, summ)) # items) c (okusers, badusers) =
     updateLoop pfcua uuid4 items (snd (inviteUserUpdateToShare pfcua uuid4 u aceOLD aceNEW summ c))
       (if validUserIDForShare pfcua u = None then (okusers, insert u badusers)
        else (insert u okusers, badusers))"
  by (cases "validUserIDForShare pfcua u")
    (simp_all add: inviteUserUpdateToShare_None inviteUserUpdateToShare_Some)

lemma setLoop_users:
  "snd (setLoop pfcua uuid4 sd c (okusers, badusers)) =
     (okusers \<union> {u \<in> set (map fst sd). validUserIDForShare pfcua u \<noteq> None},
      badusers \<union> {u \<in> set (map fst sd). validUserIDForShare pfcua u = None})"
proof (induction sd arbitrary: c okusers badusers)
  case Nil
  show ?case by simp
next
  case (Cons a sd)
  obtain u ace summ where a: "a = (u, (ace, summ))" by (cases a) auto
  show ?case
    unfolding a setLoop_Cons by (auto simp: Cons.IH)
qed

lemma updateLoop_users:
  "snd (updateLoop pfcua uuid4 ud c (okusers, badusers)) =
     (okusers \<union> {u \<in> set (map fst ud). validUserIDForShare pfcua u \<noteq> None},
      badusers \<union> {u \<in> set (map fst ud). validUserIDForShare pfcua u = None})"
proof (induction ud arbitrary: c okusers badusers)
  case Nil
  show ?case by simp
next
  case (Cons a ud)
  obtain u aceOLD aceNEW summ where a: "a = (u, (aceOLD, aceNEW, summ))" by (cases a) auto
  show ?case
    unfolding a updateLoop_Cons by (auto simp: Cons.IH)
qed



lemma setLoop_db_ok:
  "db_ok (invitesDB c) \<Longrightarrow> db_ok (invitesDB (fst (setLoop pfcua uuid4 sd c ob)))"
proof (induction sd arbitrary: c ob)
  case Nil
  then show ?case by (cases ob) simp
next
  case (Cons a sd)
  obtain u ace summ where a: "a = (u, (ace, summ))" by (cases a) auto
  obtain okusers badusers where ob: "ob = (okusers, badusers)" by (cases ob)
  have "db_ok (invitesDB (snd (inviteUserToShare pfcua uuid4 u ace summ c)))"
    using Cons.prems
    by (cases "validUserIDForShare pfcua u")
      (simp_all add: inviteUserToShare_None inviteUserToShare_Some db_ok_addOrUpdateRecord)
  then show ?case
    unfolding a ob setLoop_Cons by (rule Cons.IH)
qed

lemma updateLoop_db_ok:
  "db_ok (invitesDB c) \<Longrightarrow> db_ok (invitesDB (fst (updateLoop pfcua uuid4 ud c ob)))"
proof (induction ud arbitrary: c ob)
  case Nil
  then show ?case by (cases ob) simp
next
  case (Cons a ud)
  obtain u aceOLD aceNEW summ where a: "a = (u, (aceOLD, aceNEW, summ))" by (cases a) auto
  obtain okusers badusers where ob: "ob = (okusers, badusers)" by (cases ob)
  have "db_ok (invitesDB (snd (inviteUserUpdateToShare pfcua uuid4 u aceOLD aceNEW summ c)))"
    using Cons.prems
    by (cases "validUserIDForShare pfcua u")
      (simp_all add: inviteUserUpdateToShare_None inviteUserUpdateToShare_Some
        db_ok_addOrUpdateRecord)
  then show ?case
    unfolding a ob updateLoop_Cons by (rule Cons.IH)
qed

subsection \<open>The row of an updated user\<close>

lemma updateLoop_keeps_row:
  assumes "inj uuid4"
    and "filter (\<lambda>x. userid x = p) (invitesDB c) = [r]"
    and "inviteuid r = uuid4 k" and "k < uuidsDrawn c"
    and "\<forall>u\<in>set (map fst ud). validUserIDForShare pfcua u \<noteq> Some p"
  shows "filter (\<lambda>x. userid x = p) (invitesDB (fst (updateLoop pfcua uuid4 ud c ob))) = [r]"
  using assms(2,4,5)
proof (induction ud arbitrary: c ob)
  case Nil
  then show ?case by (cases ob) simp
next
  case (Cons a ud)
  obtain u aceOLD aceNEW summ where a: "a = (u, (aceOLD, aceNEW, summ))" by (cases a) auto
  obtain okusers badusers where ob: "ob = (okusers, badusers)" by (cases ob)
  let ?c' = "snd (inviteUserUpdateToShare pfcua uuid4 u aceOLD aceNEW summ c)"
  have rest: "\<forall>u\<in>set (map fst ud). validUserIDForShare pfcua u \<noteq> Some p"
    using Cons.prems(3) by simp
  have step: "filter (\<lambda>x. userid x = p) (invitesDB ?c') = [r] \<and> k < uuidsDrawn ?c'"
  proof (cases "validUserIDForShare pfcua u")
    case None
    then show ?thesis
      using Cons.prems(1,2) by (simp add: inviteUserUpdateToShare_None)
  next
    case (Some p')
    have "p' \<noteq> p" using Cons.prems(3) Some unfolding a by auto
    moreover have "uuid4 (uuidsDrawn c) \<noteq> uuid4 k"
      using assms(1) Cons.prems(2) by (simp add: inj_eq)
    ultimately show ?thesis
      using Cons.prems(1,2) assms(3)
      by (simp add: inviteUserUpdateToShare_Some [OF Some] filter_other_addOrUpdateRecord)
  qed
  show ?case
    unfolding a ob updateLoop_Cons
    using step rest by (intro Cons.IH) simp_all
qed

subsection \<open>The validation sweep\<close>

lemma db_ok_userid_eq:
  "db_ok db \<Longrightarrow> x \<in> set db \<Longrightarrow> y \<in> set db \<Longrightarrow> userid x = userid y \<Longrightarrow> x = y"
  unfolding db_ok_def distinct_map by (blast dest: inj_onD)

lemma db_ok_inviteuid_eq:
  "db_ok db \<Longrightarrow> x \<in> set db \<Longrightarrow> y \<in> set db \<Longrightarrow> inviteuid x = inviteuid y \<Longrightarrow> x = y"
  unfolding db_ok_def distinct_map by (blast dest: inj_onD)

lemma set_addOrUpdateRecord_same_keys:
  assumes "db_ok db" and "r \<in> set db" and "userid r' = userid r" and "inviteuid r' = inviteuid r"
  shows "set (addOrUpdateRecord r' db) = insert r' (set db - {r})"
proof -
  have "filter (\<lambda>x. userid x \<noteq> userid r' \<and> inviteuid x \<noteq> inviteuid r') db =
        filter (\<lambda>x. x \<noteq> r) db"
  proof (rule filter_cong [OF refl])
    fix x assume "x \<in> set db"
    then show "(userid x \<noteq> userid r' \<and> inviteuid x \<noteq> inviteuid r') = (x \<noteq> r)"
      using assms db_ok_userid_eq [of db x r] db_ok_inviteuid_eq [of db x r] by metis
  qed
  then have "set (addOrUpdateRecord r' db) = insert r' {x \<in> set db. x \<noteq> r}"
    by (simp add: addOrUpdateRecord_def)
  also have "{x \<in> set db. x \<noteq> r} = set db - {r}" by blast
  finally show ?thesis .
qed

lemma validateInvites_loop_set:
  assumes "db_ok db" and "distinct records" and "set records \<subseteq> set db"
  shows "set (validateInvites_loop pfcua records db) =
           invalidate pfcua ` set records \<union> (set db - set records) \<and>
         db_ok (validateInvites_loop pfcua records db)"
  using assms
proof (induction records arbitrary: db)
  case Nil
  then show ?case by simp
next
  case (Cons r records)
  have rdb: "r \<in> set db" and rrec: "r \<notin> set records" and sub: "set records \<subseteq> set db"
    and dist: "distinct records"
    using Cons.prems by simp_all
  show ?case
  proof (cases "validUserIDForShare pfcua (userid r) = None \<and> state r \<noteq> ''INVALID''")
    case False
    have inv: "invalidate pfcua r = r" using False by (auto simp: invalidate_def)
    have loop: "validateInvites_loop pfcua (r # records) db = validateInvites_loop pfcua records db"
      using False by auto
    have IH: "set (validateInvites_loop pfcua records db) =
            invalidate pfcua ` set records \<union> (set db - set records) \<and>
          db_ok (validateInvites_loop pfcua records db)"
      using Cons.prems(1) dist sub by (rule Cons.IH)
    have "invalidate pfcua ` set records \<union> (set db - set records) =
          invalidate pfcua ` set (r # records) \<union> (set db - set (r # records))"
      using rdb rrec inv by auto
    with IH show ?thesis unfolding loop by simp
  next
    case True
    let ?r' = "Invite (inviteuid r) (userid r) (access r) ''INVALID'' (summary r)"
    let ?db' = "addOrUpdateRecord ?r' db"
    have inv: "invalidate pfcua r = ?r'" using True by (simp add: invalidate_def)
    have loop: "validateInvites_loop pfcua (r # records) db = validateInvites_loop pfcua records ?db'"
      using True by simp
    have set': "set ?db' = insert ?r' (set db - {r})"
      by (rule set_addOrUpdateRecord_same_keys [OF Cons.prems(1) rdb]) simp_all
    have ne: "?r' \<noteq> r" using True by (cases r) auto
    have notin: "?r' \<notin> set db"
    proof
      assume "?r' \<in> set db"
      with rdb Cons.prems(1) have "?r' = r"
        using db_ok_userid_eq [of db ?r' r] by simp
      with ne show False by simp
    qed
    have notrec: "?r' \<notin> set records" using notin sub by blast
    have IH: "set (validateInvites_loop pfcua records ?db') =
            invalidate pfcua ` set records \<union> (set ?db' - set records) \<and>
          db_ok (validateInvites_loop pfcua records ?db')"
    proof (rule Cons.IH)
      show "db_ok ?db'" using Cons.prems(1) by (rule db_ok_addOrUpdateRecord)
      show "distinct records" by (rule dist)
      show "set records \<subseteq> set ?db'" unfolding set' using sub rrec by blast
    qed
    have "invalidate pfcua ` set records \<union> (set ?db' - set records) =
          invalidate pfcua ` set (r # records) \<union> (set db - set (r # records))"
      unfolding set' using notrec inv by auto
    with IH show ?thesis unfolding loop by simp
  qed
qed

lemma validateInvites_loop_id:
  "\<forall>r\<in>set records. \<not> (validUserIDForShare pfcua (userid r) = None \<and> state r \<noteq> ''INVALID'') \<Longrightarrow>
   validateInvites_loop pfcua records db = db"
  by (induction records arbitrary: db) auto

lemma db_ok_distinct: "db_ok db \<Longrightarrow> distinct db"
  by (simp add: db_ok_def distinct_map)

lemma validateInvites_set:
  assumes "db_ok (invitesDB c)"
  shows "set (invitesDB (validateInvites pfcua c)) = invalidate pfcua ` set (invitesDB c)"
    and "db_ok (invitesDB (validateInvites pfcua c))"
proof -
  have "distinct (allRecords (invitesDB c))" "set (allRecords (invitesDB c)) \<subseteq> set (invitesDB c)"
    using db_ok_distinct [OF assms] by (simp_all add: allRecords_def)
  from validateInvites_loop_set [OF assms this, of pfcua]
  show "set (invitesDB (validateInvites pfcua c)) = invalidate pfcua ` set (invitesDB c)"
    and "db_ok (invitesDB (validateInvites pfcua c))"
    by (simp_all add: validateInvites_def allRecords_def)
qed

lemma validateInvites_idem:
  assumes "db_ok (invitesDB c)"
  shows "invitesDB (validateInvites pfcua (validateInvites pfcua c)) =
         invitesDB (validateInvites pfcua c)"
proof -
  have "\<forall>r\<in>set (invitesDB (validateInvites pfcua c)).
          \<not> (validUserIDForShare pfcua (userid r) = None \<and> state r \<noteq> ''INVALID'')"
    unfolding validateInvites_set(1) [OF assms] invalidate_def by auto
  then have "\<forall>r\<in>set (allRecords (invitesDB (validateInvites pfcua c))).
          \<not> (validUserIDForShare pfcua (userid r) = None \<and> state r \<noteq> ''INVALID'')"
    by (simp add: allRecords_def)
  from validateInvites_loop_id [OF this]
  show ?thesis by (simp add: validateInvites_def)
qed

subsection \<open>Parsing and collapsing\<close>

lemma parseInviteDoc_distinct:
  "parseInviteDoc items sd rd = Inr (sd', rd') \<Longrightarrow>
   distinct (map fst sd) \<Longrightarrow> distinct (map fst rd) \<Longrightarrow>
   distinct (map fst sd') \<and> distinct (map fst rd')"
proof (induction items sd rd rule: parseInviteDoc.induct)
  case (2 ch items sd rd)
  then show ?case
    by (auto split: sum.splits prod.splits simp: distinct_update)
next
  case (3 ch items sd rd)
  then show ?case
    by (auto split: sum.splits prod.splits simp: distinct_update)
qed simp_all

lemma filter_delete_keys:
  "filter (\<lambda>kv. fst kv \<notin> set us) (AList.delete u al) =
   filter (\<lambda>kv. fst kv \<notin> set (u # us)) al"
  by (induction al) auto

lemma map_of_Some_if_key: "u \<in> set (map fst al) \<Longrightarrow> \<exists>v. map_of al u = Some v"
  by (induction al) auto

lemma update_fresh: "u \<notin> set (map fst al) \<Longrightarrow> AList.update u v al = al @ [(u, v)]"
  by (induction al) auto

lemma collapse_eq:
  assumes "distinct us"
    and "set us \<subseteq> set (map fst sd)" and "set us \<subseteq> set (map fst rd)"
    and "set us \<inter> set (map fst ud) = {}"
  shows "collapse us sd rd ud =
           Inr (filter (\<lambda>kv. fst kv \<notin> set us) sd,
                filter (\<lambda>kv. fst kv \<notin> set us) rd,
                ud @ map (\<lambda>u. (u, the (map_of rd u), the (map_of sd u))) us)"
  using assms
proof (induction us arbitrary: sd rd ud)
  case Nil
  then show ?case by simp
next
  case (Cons u us)
  obtain racl where r: "map_of rd u = Some racl"
    using Cons.prems(3) map_of_Some_if_key [of u rd] by auto
  obtain nacl summ where s: "map_of sd u = Some (nacl, summ)"
    using Cons.prems(2) map_of_Some_if_key [of u sd] by fastforce
  have unot: "u \<notin> set us" using Cons.prems(1) by simp
  have fresh: "u \<notin> set (map fst ud)" using Cons.prems(4) by auto
  have step: "collapse (u # us) sd rd ud =
        collapse us (AList.delete u sd) (AList.delete u rd) (ud @ [(u, racl, nacl, summ)])"
    by (simp add: r s update_fresh [OF fresh])
  have IH: "collapse us (AList.delete u sd) (AList.delete u rd) (ud @ [(u, racl, nacl, summ)]) =
      Inr (filter (\<lambda>kv. fst kv \<notin> set us) (AList.delete u sd),
           filter (\<lambda>kv. fst kv \<notin> set us) (AList.delete u rd),
           (ud @ [(u, racl, nacl, summ)]) @
             map (\<lambda>u'. (u', the (map_of (AList.delete u rd) u'), the (map_of (AList.delete u sd) u'))) us)"
  proof (rule Cons.IH)
    show "distinct us" using Cons.prems(1) by simp
    show "set us \<subseteq> set (map fst (AList.delete u sd))"
      using Cons.prems(2) unot by (auto simp: delete_keys)
    show "set us \<subseteq> set (map fst (AList.delete u rd))"
      using Cons.prems(3) unot by (auto simp: delete_keys)
    show "set us \<inter> set (map fst (ud @ [(u, racl, nacl, summ)])) = {}"
      using Cons.prems(4) unot by auto
  qed
  have m: "map (\<lambda>u'. (u', the (map_of (AList.delete u rd) u'), the (map_of (AList.delete u sd) u'))) us =
           map (\<lambda>u'. (u', the (map_of rd u'), the (map_of sd u'))) us"
    using unot by (intro map_cong) (auto simp: delete_conv)
  show ?case
    unfolding step IH filter_delete_keys m by (simp add: r s)
qed

lemma sameUserid_props:
  assumes "distinct (map fst rd)"
  shows "distinct (sameUseridInRemoveAndSet sd rd)"
    and "set (sameUseridInRemoveAndSet sd rd) = set (map fst sd) \<inter> set (map fst rd)"
  using assms by (auto simp: sameUseridInRemoveAndSet_def)

subsection \<open>A parsed request\<close>

lemma parsed_distinct:
  "parseInviteDoc invitedoc [] [] = Inr (setDict, removeDict) \<Longrightarrow>
   distinct (map fst setDict) \<and> distinct (map fst removeDict)"
  using parseInviteDoc_distinct [of invitedoc "[]" "[]" setDict removeDict] by simp

lemma collapse_parsed:
  assumes "distinct (map fst removeDict)"
  shows "collapse (sameUseridInRemoveAndSet setDict removeDict) setDict removeDict [] =
     Inr (filter (\<lambda>kv. fst kv \<notin> set (sameUseridInRemoveAndSet setDict removeDict)) setDict,
          filter (\<lambda>kv. fst kv \<notin> set (sameUseridInRemoveAndSet setDict removeDict)) removeDict,
          map (\<lambda>u. (u, the (map_of removeDict u), the (map_of setDict u)))
            (sameUseridInRemoveAndSet setDict removeDict))"
  using collapse_eq [of "sameUseridInRemoveAndSet setDict removeDict" setDict removeDict "[]"]
    sameUserid_props [OF assms, of setDict]
  by simp

lemma collapsed_keys:
  assumes "distinct (map fst setDict)" and "distinct (map fst removeDict)"
    and "collapse (sameUseridInRemoveAndSet setDict removeDict) setDict removeDict [] =
           Inr (sd, rd, ud)"
  shows "map fst sd = filter (\<lambda>u. u \<notin> set (map fst removeDict)) (map fst setDict)"
    and "map fst rd = filter (\<lambda>u. u \<notin> set (map fst setDict)) (map fst removeDict)"
    and "map fst ud = sameUseridInRemoveAndSet setDict removeDict"
    and "distinct (map fst sd)" and "distinct (map fst rd)" and "distinct (map fst ud)"
    and "\<And>u. u \<in> set (map fst ud) \<Longrightarrow>
           (u, the (map_of removeDict u), the (map_of setDict u)) \<in> set ud"
proof -
  let ?same = "sameUseridInRemoveAndSet setDict removeDict"
  have same: "set ?same = set (map fst setDict) \<inter> set (map fst removeDict)"
    and dsame: "distinct ?same"
    using sameUserid_props [OF assms(2), of setDict] by simp_all
  have sd: "sd = filter (\<lambda>kv. fst kv \<notin> set ?same) setDict"
    and rd: "rd = filter (\<lambda>kv. fst kv \<notin> set ?same) removeDict"
    and ud: "ud = map (\<lambda>u. (u, the (map_of removeDict u), the (map_of setDict u))) ?same"
    using assms(3) unfolding collapse_parsed [OF assms(2)] by simp_all
  show "map fst sd = filter (\<lambda>u. u \<notin> set (map fst removeDict)) (map fst setDict)"
    unfolding sd same filter_map comp_def
    by (rule arg_cong [where f = "map fst"], rule filter_cong) auto
  show "map fst rd = filter (\<lambda>u. u \<notin> set (map fst setDict)) (map fst removeDict)"
    unfolding rd same filter_map comp_def
    by (rule arg_cong [where f = "map fst"], rule filter_cong) auto
  show k: "map fst ud = ?same"
    unfolding ud by (simp add: comp_def)
  show "distinct (map fst sd)" unfolding sd using assms(1) by (simp add: distinct_map_filter)
  show "distinct (map fst rd)" unfolding rd using assms(2) by (simp add: distinct_map_filter)
  show "distinct (map fst ud)" unfolding k by (rule dsame)
  show "\<And>u. u \<in> set (map fst ud) \<Longrightarrow>
           (u, the (map_of removeDict u), the (map_of setDict u)) \<in> set ud"
    unfolding k unfolding ud by simp
qed

subsection \<open>The three phases together\<close>

lemma applyInvites_eq:
  "applyInvites pfcua uuid4 sd rd ud c =
     updateLoop pfcua uuid4 ud
       (fst (setLoop pfcua uuid4 sd (fst (removeLoop rd c ({}, {}))) (set (map fst rd), {})))
       (snd (setLoop pfcua uuid4 sd (fst (removeLoop rd c ({}, {}))) (set (map fst rd), {})))"
  by (simp add: applyInvites_def removeLoop_eq split: prod.splits)

lemma applyInvites_users:
  "snd (applyInvites pfcua uuid4 sd rd ud c) =
     (set (map fst rd) \<union> {u \<in> set (map fst sd). validUserIDForShare pfcua u \<noteq> None}
        \<union> {u \<in> set (map fst ud). validUserIDForShare pfcua u \<noteq> None},
      {u \<in> set (map fst sd). validUserIDForShare pfcua u = None}
        \<union> {u \<in> set (map fst ud). validUserIDForShare pfcua u = None})"
  unfolding applyInvites_eq setLoop_users updateLoop_users by simp


lemma applyInvites_db_ok:
  assumes "db_ok (invitesDB c)"
  shows "db_ok (invitesDB (fst (applyInvites pfcua uuid4 sd rd ud c)))"
proof -
  have "db_ok (invitesDB (fst (removeLoop rd c ({}, {}))))"
    using assms by (simp add: removeLoop_eq db_ok_filter)
  then show ?thesis
    unfolding applyInvites_eq by (intro updateLoop_db_ok setLoop_db_ok)
qed

lemma processInviteDoc_eq:
  assumes "parseInviteDoc invitedoc [] [] = Inr (setDict, removeDict)"
    and "collapse (sameUseridInRemoveAndSet setDict removeDict) setDict removeDict [] =
           Inr (sd, rd, ud)"
  shows "processInviteDoc pfcua uuid4 invitedoc c =
     (validateInvites pfcua (fst (applyInvites pfcua uuid4 sd rd ud c)),
      Inr (makeResponse (fst (snd (applyInvites pfcua uuid4 sd rd ud c)))
             (snd (snd (applyInvites pfcua uuid4 sd rd ud c)))))"
  by (simp add: processInviteDoc_def assms split: prod.splits)

subsection \<open>One row after the sweep\<close>

lemma distinct_singleton:
  assumes "distinct xs" and "set xs = {y}"
  shows "xs = [y]"
proof (cases xs)
  case Nil
  with assms(2) show ?thesis by simp
next
  case (Cons a as)
  have a: "a = y" using assms(2) Cons by auto
  have "set as \<subseteq> {y}" using assms(2) Cons by auto
  moreover have "y \<notin> set as" using assms(1) Cons a by simp
  ultimately have "as = []" by (cases as) auto
  then show ?thesis using Cons a by simp
qed

lemma userid_invalidate [simp]: "userid (invalidate pfcua r) = userid r"
  by (simp add: invalidate_def)

lemma access_invalidate [simp]: "access (invalidate pfcua r) = access r"
  by (simp add: invalidate_def)

lemma summary_invalidate [simp]: "summary (invalidate pfcua r) = summary r"
  by (simp add: invalidate_def)

lemma validateInvites_row:
  assumes "db_ok (invitesDB c)" and "filter (\<lambda>x. userid x = p) (invitesDB c) = [r]"
  shows "filter (\<lambda>x. userid x = p) (invitesDB (validateInvites pfcua c)) = [invalidate pfcua r]"
proof (rule distinct_singleton)
  show "distinct (filter (\<lambda>x. userid x = p) (invitesDB (validateInvites pfcua c)))"
    using validateInvites_set(2) [OF assms(1), of pfcua] by (simp add: db_ok_distinct)
  have "set (filter (\<lambda>x. userid x = p) (invitesDB c)) = {r}"
    unfolding assms(2) by simp
  then have one: "{x \<in> set (invitesDB c). userid x = p} = {r}"
    by simp
  have iff: "\<And>x. x \<in> set (invitesDB c) \<Longrightarrow> (userid x = p) = (x = r)"
    using one by blast
  have rin: "r \<in> set (invitesDB c)" using one by blast
  have "{x \<in> invalidate pfcua ` set (invitesDB c). userid x = p} = {invalidate pfcua r}"
  proof (rule set_eqI)
    fix y
    show "(y \<in> {x \<in> invalidate pfcua ` set (invitesDB c). userid x = p}) =
          (y \<in> {invalidate pfcua r})"
    proof
      assume "y \<in> {x \<in> invalidate pfcua ` set (invitesDB c). userid x = p}"
      then obtain x where x: "x \<in> set (invitesDB c)" "y = invalidate pfcua x" "userid y = p"
        by blast
      then have "userid x = p" by simp
      with iff [OF x(1)] have "x = r" by simp
      with x(2) show "y \<in> {invalidate pfcua r}" by simp
    next
      assume "y \<in> {invalidate pfcua r}"
      then have y: "y = invalidate pfcua r" by simp
      have "userid r = p" using iff [OF rin] by simp
      then have "userid y = p" using y by simp
      moreover have "y \<in> invalidate pfcua ` set (invitesDB c)"
        unfolding y using rin by (rule imageI)
      ultimately show "y \<in> {x \<in> invalidate pfcua ` set (invitesDB c). userid x = p}"
        by simp
    qed
  qed
  then show "set (filter (\<lambda>x. userid x = p) (invitesDB (validateInvites pfcua c))) =
        {invalidate pfcua r}"
    by (simp add: validateInvites_set(1) [OF assms(1)])
qed

lemma invalidate_valid:
  "validUserIDForShare pfcua (userid r) \<noteq> None \<Longrightarrow> invalidate pfcua r = r"
  by (auto simp: invalidate_def)

lemma invalidate_new:
  "invalidate pfcua (Invite i p a ''NEEDS-ACTION'' s) =
     Invite i p a (if validUserIDForShare pfcua p = None then ''INVALID'' else ''NEEDS-ACTION'') s"
  by (simp add: invalidate_def)

lemma distinct_map_filter_le1: "distinct (map f xs) \<Longrightarrow> length (filter (\<lambda>x. f x = v) xs) \<le> 1"
proof (induction xs)
  case Nil
  then show ?case by simp
next
  case (Cons a xs)
  show ?case
  proof (cases "f a = v")
    case True
    have "\<forall>x\<in>set xs. f x \<noteq> v"
      using Cons.prems True by (auto simp: image_iff)
    then have "filter (\<lambda>x. f x = v) xs = []"
      by (simp add: filter_empty_conv)
    with True show ?thesis by simp
  next
    case False
    with Cons show ?thesis by simp
  qed
qed

lemma handleInviteSet_missing:
  "handleInviteSet_loop children (None, None, None) = (u, a, s) \<Longrightarrow>
   u = None \<or> a = None \<or> s = None \<Longrightarrow> \<exists>e. handleInviteSet children = Inl e"
  by (auto simp: handleInviteSet_def split: option.splits)

lemma parseInviteDoc_fail:
  "InviteSet ch \<in> set items \<Longrightarrow> handleInviteSet ch = Inl e0 \<Longrightarrow>
   \<exists>e. parseInviteDoc items sd rd = Inl e"
  by (induction items sd rd rule: parseInviteDoc.induct)
    (auto split: sum.splits prod.splits)

lemma applyInvites_finite:
  "finite (fst (snd (applyInvites pfcua uuid4 sd rd ud c))) \<and>
   finite (snd (snd (applyInvites pfcua uuid4 sd rd ud c)))"
  unfolding applyInvites_users by simp

lemma example_parsed:
  "parseInviteDoc example_request [] [] =
     Inr ([(''mailto:alice@example.com'', ReadWriteAccess, ''s''), (''nobody'', ReadAccess, ''x'')],
          [(''mailto:alice@example.com'', None), (''bob'', None)])"
  by (simp add: example_request_def handleInviteSet_def handleInviteRemove_def)

lemma example_collapsed:
  "collapse
     (sameUseridInRemoveAndSet
        [(''mailto:alice@example.com'', ReadWriteAccess, ''s''), (''nobody'', ReadAccess, ''x'')]
        [(''mailto:alice@example.com'', None), (''bob'', None)])
     [(''mailto:alice@example.com'', ReadWriteAccess, ''s''), (''nobody'', ReadAccess, ''x'')]
     [(''mailto:alice@example.com'', None), (''bob'', None)] [] =
   Inr ([(''nobody'', ReadAccess, ''x'')], [(''bob'', None)],
        [(''mailto:alice@example.com'', None, ReadWriteAccess, ''s'')])"
  by (simp add: sameUseridInRemoveAndSet_def)

lemma example_uuid4_inj: "inj example_uuid4"
proof (rule injI)
  fix m n assume "example_uuid4 m = example_uuid4 n"
  then have "length (example_uuid4 m) = length (example_uuid4 n)" by simp
  then show "m = n" by (simp add: example_uuid4_def)
qed

lemma example_db_ok: "db_ok (invitesDB example_collection)"
  by (simp add: example_collection_def db_ok_def)

lemma example_applied:
  "applyInvites example_directory example_uuid4 [(''nobody'', ReadAccess, ''x'')] [(''bob'', None)]
     [(''mailto:alice@example.com'', None, ReadWriteAccess, ''s'')] example_collection =
   (\<lparr>sharedOwner = True,
      invitesDB = [Invite ''uu'' ''carol'' ''read-only'' ''ACCEPTED'' ''c'',
                   Invite ''uuu'' ''/principals/users/alice'' ''read-write'' ''NEEDS-ACTION'' ''s''],
      uuidsDrawn = 3,
      calls = [UninviteUserToShare ''bob'', InviteUserToShare ''nobody'',
               InviteUserUpdateToShare ''mailto:alice@example.com'']\<rparr>,
    {''bob'', ''mailto:alice@example.com''}, {''nobody''})"
  unfolding example_directory_def example_uuid4_def example_collection_def by code_simp

subsection \<open>Rows that the operations leave alone\<close>

lemma invalidate_None:
  "validUserIDForShare pfcua (userid r) = None \<Longrightarrow>
   invalidate pfcua r = Invite (inviteuid r) (userid r) (access r) ''INVALID'' (summary r)"
  by (cases r) (auto simp: invalidate_def)

lemma drawnBefore_fresh:
  assumes "inj uuid4" and "drawnBefore uuid4 c" and "uuidsDrawn c \<le> k"
  shows "uuid4 k \<notin> inviteuid ` set (invitesDB c)"
proof
  assume "uuid4 k \<in> inviteuid ` set (invitesDB c)"
  then obtain r where r: "r \<in> set (invitesDB c)" "inviteuid r = uuid4 k"
    by (auto simp: image_iff)
  then obtain j where j: "j < uuidsDrawn c" "inviteuid r = uuid4 j"
    using assms(2) unfolding drawnBefore_def by blast
  then have "uuid4 j = uuid4 k" using r(2) by simp
  then have "j = k" using assms(1) by (simp add: inj_eq)
  with j(1) assms(3) show False by simp
qed

lemma addOrUpdateRecord_keeps:
  assumes "inj uuid4"
    and "\<forall>x \<in> set db. \<exists>k < (n::nat). inviteuid x = uuid4 k"
    and "r \<in> set db" and "userid r \<noteq> p"
  shows "r \<in> set (addOrUpdateRecord (Invite (uuid4 n) p a st s) db)"
proof -
  obtain k where k: "k < n" "inviteuid r = uuid4 k" using assms(2,3) by blast
  have "uuid4 k \<noteq> uuid4 n" using assms(1) k(1) by (auto simp: inj_eq)
  then show ?thesis using assms(3,4) k(2) by (simp add: addOrUpdateRecord_def)
qed

lemma addOrUpdateRecord_drawn:
  assumes "\<forall>x \<in> set db. \<exists>k < (n::nat). inviteuid x = uuid4 k"
  shows "\<forall>x \<in> set (addOrUpdateRecord (Invite (uuid4 n) p a st s) db).
           \<exists>k < Suc n. inviteuid x = uuid4 k"
proof
  fix x assume "x \<in> set (addOrUpdateRecord (Invite (uuid4 n) p a st s) db)"
  then have "x = Invite (uuid4 n) p a st s \<or> x \<in> set db"
    by (auto simp: addOrUpdateRecord_def)
  then show "\<exists>k < Suc n. inviteuid x = uuid4 k"
  proof
    assume "x = Invite (uuid4 n) p a st s"
    then show ?thesis by (intro exI [where x = n]) simp
  next
    assume "x \<in> set db"
    then obtain k where "k < n" "inviteuid x = uuid4 k" using assms by blast
    then show ?thesis by (intro exI [where x = k]) simp
  qed
qed

lemma inviteUserToShare_keeps:
  assumes "inj uuid4" and "drawnBefore uuid4 c" and "r \<in> set (invitesDB c)"
    and "validUserIDForShare pfcua u \<noteq> Some (userid r)"
  shows "r \<in> set (invitesDB (snd (inviteUserToShare pfcua uuid4 u ace summ c)))"
proof (cases "validUserIDForShare pfcua u")
  case None
  then show ?thesis using assms(3) by (simp add: inviteUserToShare_None)
next
  case (Some p)
  have d: "\<forall>x \<in> set (invitesDB c). \<exists>k < uuidsDrawn c. inviteuid x = uuid4 k"
    using assms(2) by (simp add: drawnBefore_def)
  have "userid r \<noteq> p" using assms(4) Some by auto
  then have "r \<in> set (addOrUpdateRecord
      (Invite (uuid4 (uuidsDrawn c)) p (inviteAccessMapFromXML ace) ''NEEDS-ACTION'' summ)
      (invitesDB c))"
    by (rule addOrUpdateRecord_keeps [OF assms(1) d assms(3)])
  then show ?thesis by (simp add: inviteUserToShare_Some [OF Some])
qed

lemma inviteUserToShare_drawn:
  assumes "drawnBefore uuid4 c"
  shows "drawnBefore uuid4 (snd (inviteUserToShare pfcua uuid4 u ace summ c))"
proof (cases "validUserIDForShare pfcua u")
  case None
  then show ?thesis using assms by (simp add: inviteUserToShare_None drawnBefore_def)
next
  case (Some p)
  have d: "\<forall>x \<in> set (invitesDB c). \<exists>k < uuidsDrawn c. inviteuid x = uuid4 k"
    using assms by (simp add: drawnBefore_def)
  show ?thesis
    unfolding drawnBefore_def inviteUserToShare_Some [OF Some]
    using addOrUpdateRecord_drawn [OF d] by simp
qed

lemma inviteUserUpdateToShare_snd:
  "invitesDB (snd (inviteUserUpdateToShare pfcua uuid4 u aceOLD aceNEW summ c)) =
     invitesDB (snd (inviteUserToShare pfcua uuid4 u aceNEW summ c)) \<and>
   uuidsDrawn (snd (inviteUserUpdateToShare pfcua uuid4 u aceOLD aceNEW summ c)) =
     uuidsDrawn (snd (inviteUserToShare pfcua uuid4 u aceNEW summ c))"
  by (cases "validUserIDForShare pfcua u")
    (simp_all add: inviteUserToShare_None inviteUserToShare_Some
      inviteUserUpdateToShare_None inviteUserUpdateToShare_Some)

lemma drawnBefore_cong:
  "invitesDB c' = invitesDB c \<Longrightarrow> uuidsDrawn c' = uuidsDrawn c \<Longrightarrow>
   drawnBefore uuid4 c' = drawnBefore uuid4 c"
  by (simp add: drawnBefore_def)

lemma inviteUserUpdateToShare_keeps:
  assumes "inj uuid4" and "drawnBefore uuid4 c" and "r \<in> set (invitesDB c)"
    and "validUserIDForShare pfcua u \<noteq> Some (userid r)"
  shows "r \<in> set (invitesDB (snd (inviteUserUpdateToShare pfcua uuid4 u aceOLD aceNEW summ c)))"
  using inviteUserToShare_keeps [OF assms] by (simp add: inviteUserUpdateToShare_snd)

lemma inviteUserUpdateToShare_drawn:
  assumes "drawnBefore uuid4 c"
  shows "drawnBefore uuid4 (snd (inviteUserUpdateToShare pfcua uuid4 u aceOLD aceNEW summ c))"
  using inviteUserToShare_drawn [OF assms, of pfcua u aceNEW summ]
    drawnBefore_cong [of "snd (inviteUserUpdateToShare pfcua uuid4 u aceOLD aceNEW summ c)"
      "snd (inviteUserToShare pfcua uuid4 u aceNEW summ c)" uuid4]
  by (simp add: inviteUserUpdateToShare_snd)

lemma setLoop_drawn:
  "drawnBefore uuid4 c \<Longrightarrow> drawnBefore uuid4 (fst (setLoop pfcua uuid4 sd c ob))"
proof (induction sd arbitrary: c ob)
  case Nil
  then show ?case by (cases ob) simp
next
  case (Cons a sd)
  obtain u ace summ where a: "a = (u, (ace, summ))" by (cases a) auto
  obtain okusers badusers where ob: "ob = (okusers, badusers)" by (cases ob)
  show ?case
    unfolding a ob setLoop_Cons
    by (rule Cons.IH) (rule inviteUserToShare_drawn [OF Cons.prems])
qed

lemma updateLoop_drawn:
  "drawnBefore uuid4 c \<Longrightarrow> drawnBefore uuid4 (fst (updateLoop pfcua uuid4 ud c ob))"
proof (induction ud arbitrary: c ob)
  case Nil
  then show ?case by (cases ob) simp
next
  case (Cons a ud)
  obtain u aceOLD aceNEW summ where a: "a = (u, (aceOLD, aceNEW, summ))" by (cases a) auto
  obtain okusers badusers where ob: "ob = (okusers, badusers)" by (cases ob)
  show ?case
    unfolding a ob updateLoop_Cons
    by (rule Cons.IH) (rule inviteUserUpdateToShare_drawn [OF Cons.prems])
qed

lemma setLoop_keeps:
  assumes "inj uuid4"
  shows "drawnBefore uuid4 c \<Longrightarrow> r \<in> set (invitesDB c) \<Longrightarrow>
     \<forall>u \<in> set (map fst sd). validUserIDForShare pfcua u \<noteq> Some (userid r) \<Longrightarrow>
     r \<in> set (invitesDB (fst (setLoop pfcua uuid4 sd c ob)))"
proof (induction sd arbitrary: c ob)
  case Nil
  then show ?case by (cases ob) simp
next
  case (Cons a sd)
  obtain u ace summ where a: "a = (u, (ace, summ))" by (cases a) auto
  obtain okusers badusers where ob: "ob = (okusers, badusers)" by (cases ob)
  have v: "validUserIDForShare pfcua u \<noteq> Some (userid r)"
    using Cons.prems(3) by (simp add: a)
  have rest: "\<forall>u \<in> set (map fst sd). validUserIDForShare pfcua u \<noteq> Some (userid r)"
    using Cons.prems(3) by simp
  show ?case
    unfolding a ob setLoop_Cons
    apply (rule Cons.IH)
      apply (rule inviteUserToShare_drawn [OF Cons.prems(1)])
     apply (rule inviteUserToShare_keeps [OF assms Cons.prems(1,2) v])
    apply (rule rest)
    done
qed

lemma updateLoop_keeps:
  assumes "inj uuid4"
  shows "drawnBefore uuid4 c \<Longrightarrow> r \<in> set (invitesDB c) \<Longrightarrow>
     \<forall>u \<in> set (map fst ud). validUserIDForShare pfcua u \<noteq> Some (userid r) \<Longrightarrow>
     r \<in> set (invitesDB (fst (updateLoop pfcua uuid4 ud c ob)))"
proof (induction ud arbitrary: c ob)
  case Nil
  then show ?case by (cases ob) simp
next
  case (Cons a ud)
  obtain u aceOLD aceNEW summ where a: "a = (u, (aceOLD, aceNEW, summ))" by (cases a) auto
  obtain okusers badusers where ob: "ob = (okusers, badusers)" by (cases ob)
  have v: "validUserIDForShare pfcua u \<noteq> Some (userid r)"
    using Cons.prems(3) by (simp add: a)
  have rest: "\<forall>u \<in> set (map fst ud). validUserIDForShare pfcua u \<noteq> Some (userid r)"
    using Cons.prems(3) by simp
  show ?case
    unfolding a ob updateLoop_Cons
    apply (rule Cons.IH)
      apply (rule inviteUserUpdateToShare_drawn [OF Cons.prems(1)])
     apply (rule inviteUserUpdateToShare_keeps [OF assms Cons.prems(1,2) v])
    apply (rule rest)
    done
qed

lemma applyInvites_keeps:
  assumes "inj uuid4" and "drawnBefore uuid4 c" and "r \<in> set (invitesDB c)"
    and "userid r \<notin> set (map fst rd)"
    and "\<forall>u \<in> set (map fst sd). validUserIDForShare pfcua u \<noteq> Some (userid r)"
    and "\<forall>u \<in> set (map fst ud). validUserIDForShare pfcua u \<noteq> Some (userid r)"
  shows "r \<in> set (invitesDB (fst (applyInvites pfcua uuid4 sd rd ud c)))"
proof -
  let ?c1 = "fst (removeLoop rd c ({}, {}))"
  have d1: "drawnBefore uuid4 ?c1"
    using assms(2) by (simp add: removeLoop_eq drawnBefore_def)
  have r1: "r \<in> set (invitesDB ?c1)"
    using assms(3,4) by (simp add: removeLoop_eq)
  let ?c2 = "fst (setLoop pfcua uuid4 sd ?c1 (set (map fst rd), {}))"
  have d2: "drawnBefore uuid4 ?c2" using d1 by (rule setLoop_drawn)
  have r2: "r \<in> set (invitesDB ?c2)" by (rule setLoop_keeps [OF assms(1) d1 r1 assms(5)])
  show ?thesis
    unfolding applyInvites_eq by (rule updateLoop_keeps [OF assms(1) d2 r2 assms(6)])
qed

subsection \<open>Operations on user ids that do not resolve\<close>

lemma setLoop_unresolved:
  "\<forall>u \<in> set (map fst sd). validUserIDForShare pfcua u = None \<Longrightarrow>
   invitesDB (fst (setLoop pfcua uuid4 sd c ob)) = invitesDB c \<and>
   uuidsDrawn (fst (setLoop pfcua uuid4 sd c ob)) = uuidsDrawn c"
proof (induction sd arbitrary: c ob)
  case Nil
  then show ?case by (cases ob) simp
next
  case (Cons a sd)
  obtain u ace summ where a: "a = (u, (ace, summ))" by (cases a) auto
  obtain okusers badusers where ob: "ob = (okusers, badusers)" by (cases ob)
  have v: "validUserIDForShare pfcua u = None" using Cons.prems by (simp add: a)
  have rest: "\<forall>u \<in> set (map fst sd). validUserIDForShare pfcua u = None"
    using Cons.prems by simp
  show ?case
    unfolding a ob setLoop_Cons
    using Cons.IH [OF rest] by (simp add: inviteUserToShare_None [OF v] v)
qed

lemma updateLoop_unresolved:
  "\<forall>u \<in> set (map fst ud). validUserIDForShare pfcua u = None \<Longrightarrow>
   invitesDB (fst (updateLoop pfcua uuid4 ud c ob)) = invitesDB c \<and>
   uuidsDrawn (fst (updateLoop pfcua uuid4 ud c ob)) = uuidsDrawn c"
proof (induction ud arbitrary: c ob)
  case Nil
  then show ?case by (cases ob) simp
next
  case (Cons a ud)
  obtain u aceOLD aceNEW summ where a: "a = (u, (aceOLD, aceNEW, summ))" by (cases a) auto
  obtain okusers badusers where ob: "ob = (okusers, badusers)" by (cases ob)
  have v: "validUserIDForShare pfcua u = None" using Cons.prems by (simp add: a)
  have rest: "\<forall>u \<in> set (map fst ud). validUserIDForShare pfcua u = None"
    using Cons.prems by simp
  show ?case
    unfolding a ob updateLoop_Cons
    using Cons.IH [OF rest] by (simp add: inviteUserUpdateToShare_None [OF v] v)
qed

lemma applyInvites_unresolved:
  assumes "\<forall>u \<in> set (map fst sd). validUserIDForShare pfcua u = None"
    and "\<forall>u \<in> set (map fst ud). validUserIDForShare pfcua u = None"
  shows "invitesDB (fst (applyInvites pfcua uuid4 sd rd ud c)) =
           filter (\<lambda>x. userid x \<notin> set (map fst rd)) (invitesDB c) \<and>
         uuidsDrawn (fst (applyInvites pfcua uuid4 sd rd ud c)) = uuidsDrawn c"
  unfolding applyInvites_eq
  by (simp add: updateLoop_unresolved [OF assms(2)] setLoop_unresolved [OF assms(1)]
      removeLoop_eq)

subsection \<open>The counter of drawn identifiers\<close>

lemma setLoop_counter:
  "uuidsDrawn c \<le> uuidsDrawn (fst (setLoop pfcua uuid4 sd c ob))"
proof (induction sd arbitrary: c ob)
  case Nil
  then show ?case by (cases ob) simp
next
  case (Cons a sd)
  obtain u ace summ where a: "a = (u, (ace, summ))" by (cases a) auto
  obtain okusers badusers where ob: "ob = (okusers, badusers)" by (cases ob)
  have "uuidsDrawn c \<le> uuidsDrawn (snd (inviteUserToShare pfcua uuid4 u ace summ c))"
    by (cases "validUserIDForShare pfcua u")
      (simp_all add: inviteUserToShare_None inviteUserToShare_Some)
  also have "\<dots> \<le> uuidsDrawn (fst (setLoop pfcua uuid4 sd
      (snd (inviteUserToShare pfcua uuid4 u ace summ c))
      (if validUserIDForShare pfcua u = None then (okusers, insert u badusers)
       else (insert u okusers, badusers))))"
    by (rule Cons.IH)
  finally show ?case unfolding a ob setLoop_Cons .
qed

subsection \<open>The row of an updated user, with its identifier\<close>

lemma updateLoop_row:
  assumes "inj uuid4"
    and "distinct (map fst ud)"
    and "(u, (aceOLD, aceNEW, summ)) \<in> set ud"
    and "validUserIDForShare pfcua u = Some p"
    and "\<forall>u'\<in>set (map fst ud). validUserIDForShare pfcua u' = Some p \<longrightarrow> u' = u"
  shows "\<exists>k. uuidsDrawn c \<le> k \<and>
           filter (\<lambda>x. userid x = p) (invitesDB (fst (updateLoop pfcua uuid4 ud c ob))) =
           [Invite (uuid4 k) p (inviteAccessMapFromXML aceNEW) ''NEEDS-ACTION'' summ]"
  using assms(2,3,5)
proof (induction ud arbitrary: c ob)
  case Nil
  then show ?case by simp
next
  case (Cons a ud)
  obtain u1 o1 n1 s1 where a: "a = (u1, (o1, n1, s1))" by (cases a) auto
  obtain okusers badusers where ob: "ob = (okusers, badusers)" by (cases ob)
  let ?c' = "snd (inviteUserUpdateToShare pfcua uuid4 u1 o1 n1 s1 c)"
  show ?case
  proof (cases "u1 = u")
    case True
    have "u \<notin> fst ` set ud"
      using Cons.prems(1) True by (simp add: a)
    have "(u, (aceOLD, aceNEW, summ)) \<notin> set ud"
    proof
      assume "(u, (aceOLD, aceNEW, summ)) \<in> set ud"
      then have "fst (u, (aceOLD, aceNEW, summ)) \<in> fst ` set ud" by (rule imageI)
      with \<open>u \<notin> fst ` set ud\<close> show False by simp
    qed
    then have eq: "o1 = aceOLD" "n1 = aceNEW" "s1 = summ"
      using Cons.prems(2) True by (auto simp: a)
    let ?r = "Invite (uuid4 (uuidsDrawn c)) p (inviteAccessMapFromXML aceNEW) ''NEEDS-ACTION'' summ"
    have row: "filter (\<lambda>x. userid x = p) (invitesDB ?c') = [?r]"
      using filter_userid_addOrUpdateRecord [of ?r "invitesDB c"]
      by (simp add: True eq inviteUserUpdateToShare_Some [OF assms(4)])
    have cnt: "uuidsDrawn c < uuidsDrawn ?c'"
      by (simp add: True eq inviteUserUpdateToShare_Some [OF assms(4)])
    have none: "\<forall>u'\<in>set (map fst ud). validUserIDForShare pfcua u' \<noteq> Some p"
    proof
      fix u' assume u': "u' \<in> set (map fst ud)"
      then have "u' \<noteq> u" using Cons.prems(1) True by (auto simp: a)
      moreover have "validUserIDForShare pfcua u' = Some p \<longrightarrow> u' = u"
        using Cons.prems(3) u' by auto
      ultimately show "validUserIDForShare pfcua u' \<noteq> Some p" by blast
    qed
    have uid: "inviteuid ?r = uuid4 (uuidsDrawn c)" by simp
    have kept: "filter (\<lambda>x. userid x = p)
            (invitesDB (fst (updateLoop pfcua uuid4 ud ?c'
               (if validUserIDForShare pfcua u1 = None then (okusers, insert u1 badusers)
                else (insert u1 okusers, badusers))))) = [?r]"
      by (rule updateLoop_keeps_row [OF assms(1) row uid cnt none])
    show ?thesis
      unfolding a ob updateLoop_Cons
      by (rule exI [where x = "uuidsDrawn c"]) (rule conjI, rule order_refl, rule kept)
  next
    case False
    have d: "distinct (map fst ud)" using Cons.prems(1) by simp
    have m: "(u, (aceOLD, aceNEW, summ)) \<in> set ud"
      using Cons.prems(2) False by (auto simp: a)
    have q: "\<forall>u'\<in>set (map fst ud). validUserIDForShare pfcua u' = Some p \<longrightarrow> u' = u"
      using Cons.prems(3) by auto
    have "\<exists>k. uuidsDrawn ?c' \<le> k \<and>
      filter (\<lambda>x. userid x = p)
         (invitesDB (fst (updateLoop pfcua uuid4 ud ?c'
            (if validUserIDForShare pfcua u1 = None then (okusers, insert u1 badusers)
             else (insert u1 okusers, badusers))))) =
       [Invite (uuid4 k) p (inviteAccessMapFromXML aceNEW) ''NEEDS-ACTION'' summ]"
      by (rule Cons.IH [OF d m q])
    then obtain k where k: "uuidsDrawn ?c' \<le> k"
      "filter (\<lambda>x. userid x = p)
         (invitesDB (fst (updateLoop pfcua uuid4 ud ?c'
            (if validUserIDForShare pfcua u1 = None then (okusers, insert u1 badusers)
             else (insert u1 okusers, badusers))))) =
       [Invite (uuid4 k) p (inviteAccessMapFromXML aceNEW) ''NEEDS-ACTION'' summ]"
      by (elim exE conjE)
    have "uuidsDrawn c \<le> uuidsDrawn ?c'"
      by (cases "validUserIDForShare pfcua u1")
        (simp_all add: inviteUserUpdateToShare_None inviteUserUpdateToShare_Some)
    with k(1) have le: "uuidsDrawn c \<le> k" by simp
    show ?thesis
      unfolding a ob updateLoop_Cons
      by (rule exI [where x = k], rule conjI, rule le, rule k(2))
  qed
qed

lemma applyInvites_row:
  assumes "inj uuid4" and "distinct (map fst ud)"
    and "(u, (aceOLD, aceNEW, summ)) \<in> set ud"
    and "validUserIDForShare pfcua u = Some p"
    and "\<forall>u'\<in>set (map fst ud). validUserIDForShare pfcua u' = Some p \<longrightarrow> u' = u"
  shows "\<exists>k. uuidsDrawn c \<le> k \<and>
           filter (\<lambda>x. userid x = p) (invitesDB (fst (applyInvites pfcua uuid4 sd rd ud c))) =
           [Invite (uuid4 k) p (inviteAccessMapFromXML aceNEW) ''NEEDS-ACTION'' summ]"
proof -
  let ?c1 = "fst (removeLoop rd c ({}, {}))"
  let ?c2 = "fst (setLoop pfcua uuid4 sd ?c1 (set (map fst rd), {}))"
  let ?ob = "snd (setLoop pfcua uuid4 sd ?c1 (set (map fst rd), {}))"
  obtain k where k: "uuidsDrawn ?c2 \<le> k"
    "filter (\<lambda>x. userid x = p) (invitesDB (fst (updateLoop pfcua uuid4 ud ?c2 ?ob))) =
       [Invite (uuid4 k) p (inviteAccessMapFromXML aceNEW) ''NEEDS-ACTION'' summ]"
    using updateLoop_row [OF assms, of ?c2 ?ob] by (elim exE conjE)
  have "uuidsDrawn c = uuidsDrawn ?c1" by (simp add: removeLoop_eq)
  also have "\<dots> \<le> uuidsDrawn ?c2" by (rule setLoop_counter)
  finally have le: "uuidsDrawn c \<le> k" using k(1) by simp
  show ?thesis
    unfolding applyInvites_eq by (rule exI [where x = k], rule conjI, rule le, rule k(2))
qed

lemma set_addOrUpdateRecord:
  "set (addOrUpdateRecord r db) =
     insert r {x \<in> set db. userid x \<noteq> userid r \<and> inviteuid x \<noteq> inviteuid r}"
  by (auto simp: addOrUpdateRecord_def)

lemma filter_inviteuid_addOrUpdateRecord:
  "filter (\<lambda>x. inviteuid x = inviteuid r) (addOrUpdateRecord r db) = [r]"
  by (auto simp: addOrUpdateRecord_def filter_empty_conv)

lemma filter_others_addOrUpdateRecord:
  assumes "\<forall>x \<in> set db. inviteuid x = inviteuid r \<longrightarrow> userid x = userid r"
  shows "filter (\<lambda>x. userid x \<noteq> userid r) (addOrUpdateRecord r db) =
         filter (\<lambda>x. userid x \<noteq> userid r) db"
proof -
  have "filter (\<lambda>x. userid x \<noteq> userid r)
          (filter (\<lambda>x. userid x \<noteq> userid r \<and> inviteuid x \<noteq> inviteuid r) db) =
        filter (\<lambda>x. userid x \<noteq> userid r) db"
    unfolding filter_filter using assms by (intro filter_cong) auto
  then show ?thesis by (simp add: addOrUpdateRecord_def)
qed

lemma example_stale_parsed:
  "parseInviteDoc example_stale_request [] [] =
     Inr ([(''carol'', ReadWriteAccess, ''t'')], [(''carol'', None)])"
  by (simp add: example_stale_request_def handleInviteSet_def handleInviteRemove_def)

lemma example_drawnBefore: "drawnBefore example_uuid4 example_collection"
  unfolding drawnBefore_def example_collection_def example_uuid4_def
  by (simp add: Ex_less_Suc numeral_2_eq_2)

section \<open>The properties of the specification\<close>

text \<open>
  Claim C1 (amended). Let a request parse and let \<open>u\<close> be a user id that it both sets
  (with access \<open>newACL\<close> and summary \<open>summ\<close>) and removes. Then the collapse succeeds and
  moves \<open>u\<close> out of both dictionaries into the updates.

  If \<open>u\<close> resolves to the principal \<open>p\<close>, and no other user id that is both set and
  removed resolves to \<open>p\<close>, then \<open>u\<close> is among the ok users and not among the bad ones,
  and after the request the database holds exactly one row for \<open>p\<close>, with the new access
  and summary and an invite uid drawn during the request; when the invite uids of the
  database were all drawn before, that invite uid is none of them. The row is keyed by the
  principal URL, and the sweep that ends the request marks it INVALID when the principal
  URL itself does not resolve.

  If \<open>u\<close> does not resolve, then \<open>u\<close> is among the bad users and not among the ok ones,
  the call of \<^verbatim>\<open>inviteUserUpdateToShare\<close> for \<open>u\<close> returns False and leaves the database as
  it was, and after the request every row of \<open>u\<close> has state INVALID. A row that \<open>u\<close> had
  before the request is not removed: when the invite uids of the database were all drawn
  before and no user id that the request sets resolves to \<open>u\<close>, the row is still there,
  its state INVALID and its other fields as they were.
\<close>

theorem collapsed_update_outcome:
  assumes "db_ok (invitesDB c)" and "inj uuid4"
    and "parseInviteDoc invitedoc [] [] = Inr (setDict, removeDict)"
    and "map_of setDict u = Some (newACL, summ)"
    and "u \<in> set (map fst removeDict)"
  shows "\<exists>sd rd ud.
     collapse (sameUseridInRemoveAndSet setDict removeDict) setDict removeDict [] =
       Inr (sd, rd, ud) \<and>
     u \<notin> set (map fst sd) \<and> u \<notin> set (map fst rd) \<and> u \<in> set (map fst ud) \<and>
     (\<forall>p. validUserIDForShare pfcua u = Some p \<and>
          (\<forall>u' \<in> set (sameUseridInRemoveAndSet setDict removeDict).
             validUserIDForShare pfcua u' = Some p \<longrightarrow> u' = u) \<longrightarrow>
        u \<in> fst (snd (applyInvites pfcua uuid4 sd rd ud c)) \<and>
        u \<notin> snd (snd (applyInvites pfcua uuid4 sd rd ud c)) \<and>
        (\<exists>k. uuidsDrawn c \<le> k \<and>
           filter (\<lambda>x. userid x = p)
             (invitesDB (fst (processInviteDoc pfcua uuid4 invitedoc c))) =
             [Invite (uuid4 k) p (inviteAccessMapFromXML newACL)
                (if validUserIDForShare pfcua p = None then ''INVALID'' else ''NEEDS-ACTION'')
                summ] \<and>
           (drawnBefore uuid4 c \<longrightarrow> uuid4 k \<notin> inviteuid ` set (invitesDB c)))) \<and>
     (validUserIDForShare pfcua u = None \<longrightarrow>
        u \<in> snd (snd (applyInvites pfcua uuid4 sd rd ud c)) \<and>
        u \<notin> fst (snd (applyInvites pfcua uuid4 sd rd ud c)) \<and>
        (\<forall>aceOLD c'. inviteUserUpdateToShare pfcua uuid4 u aceOLD newACL summ c' =
           (False, c'\<lparr>calls := calls c' @ [InviteUserUpdateToShare u]\<rparr>)) \<and>
        (\<forall>r \<in> set (invitesDB (fst (processInviteDoc pfcua uuid4 invitedoc c))).
           userid r = u \<longrightarrow> state r = ''INVALID'') \<and>
        (drawnBefore uuid4 c \<and>
         (\<forall>u' \<in> set (map fst setDict). validUserIDForShare pfcua u' \<noteq> Some u) \<longrightarrow>
           (\<forall>r \<in> set (invitesDB c). userid r = u \<longrightarrow>
              Invite (inviteuid r) u (access r) ''INVALID'' (summary r) \<in>
                set (invitesDB (fst (processInviteDoc pfcua uuid4 invitedoc c))))))"
proof -
  have d: "distinct (map fst setDict)" "distinct (map fst removeDict)"
    using parsed_distinct [OF assms(3)] by simp_all
  let ?same = "sameUseridInRemoveAndSet setDict removeDict"
  let ?sd = "filter (\<lambda>kv. fst kv \<notin> set ?same) setDict"
  let ?rd = "filter (\<lambda>kv. fst kv \<notin> set ?same) removeDict"
  let ?ud = "map (\<lambda>u. (u, the (map_of removeDict u), the (map_of setDict u))) ?same"
  let ?app = "applyInvites pfcua uuid4 ?sd ?rd ?ud c"
  let ?fin = "invitesDB (fst (processInviteDoc pfcua uuid4 invitedoc c))"
  have col: "collapse ?same setDict removeDict [] = Inr (?sd, ?rd, ?ud)"
    by (rule collapse_parsed [OF d(2)])
  note k = collapsed_keys [OF d col]
  have "(u, newACL, summ) \<in> set setDict" using assms(4) by (rule map_of_SomeD)
  then have "fst (u, newACL, summ) \<in> fst ` set setDict" by (rule imageI)
  then have uset: "u \<in> set (map fst setDict)" by simp
  have same: "u \<in> set ?same"
    using uset assms(5) sameUserid_props(2) [OF d(2), of setDict] by simp
  have 1: "u \<notin> set (map fst ?sd)" unfolding k(1) using assms(5) by simp
  have 2: "u \<notin> set (map fst ?rd)" unfolding k(2) using uset by simp
  have 3: "u \<in> set (map fst ?ud)" unfolding k(3) by (rule same)
  have users: "snd ?app =
     (set (map fst ?rd) \<union> {u \<in> set (map fst ?sd). validUserIDForShare pfcua u \<noteq> None}
        \<union> {u \<in> set (map fst ?ud). validUserIDForShare pfcua u \<noteq> None},
      {u \<in> set (map fst ?sd). validUserIDForShare pfcua u = None}
        \<union> {u \<in> set (map fst ?ud). validUserIDForShare pfcua u = None})"
    by (rule applyInvites_users)
  have ok3: "db_ok (invitesDB (fst ?app))" using assms(1) by (rule applyInvites_db_ok)
  have fin: "?fin = invitesDB (validateInvites pfcua (fst ?app))"
    unfolding processInviteDoc_eq [OF assms(3) col] by simp
  note S = validateInvites_set(1) [OF ok3, of pfcua]
  have A: "u \<in> fst (snd ?app) \<and> u \<notin> snd (snd ?app) \<and>
        (\<exists>k. uuidsDrawn c \<le> k \<and>
           filter (\<lambda>x. userid x = p) ?fin =
             [Invite (uuid4 k) p (inviteAccessMapFromXML newACL)
                (if validUserIDForShare pfcua p = None then ''INVALID'' else ''NEEDS-ACTION'')
                summ] \<and>
           (drawnBefore uuid4 c \<longrightarrow> uuid4 k \<notin> inviteuid ` set (invitesDB c)))"
    if v: "validUserIDForShare pfcua u = Some p"
      and uq: "\<forall>u' \<in> set ?same. validUserIDForShare pfcua u' = Some p \<longrightarrow> u' = u"
    for p
  proof -
    have 4: "u \<in> fst (snd ?app)" unfolding users using 3 v by simp
    have 5: "u \<notin> snd (snd ?app)" unfolding users using v by simp
    have mem: "(u, the (map_of removeDict u), newACL, summ) \<in> set ?ud"
      using k(7) [OF 3] assms(4) by simp
    have uniq: "\<forall>u'\<in>set (map fst ?ud). validUserIDForShare pfcua u' = Some p \<longrightarrow> u' = u"
      unfolding k(3) by (rule uq)
    obtain kk where kk: "uuidsDrawn c \<le> kk"
      "filter (\<lambda>x. userid x = p) (invitesDB (fst ?app)) =
        [Invite (uuid4 kk) p (inviteAccessMapFromXML newACL) ''NEEDS-ACTION'' summ]"
      using applyInvites_row [OF assms(2) k(6) mem v uniq, of c ?sd ?rd] by (elim exE conjE)
    have 6: "filter (\<lambda>x. userid x = p) ?fin =
         [Invite (uuid4 kk) p (inviteAccessMapFromXML newACL)
            (if validUserIDForShare pfcua p = None then ''INVALID'' else ''NEEDS-ACTION'') summ]"
      unfolding fin validateInvites_row [OF ok3 kk(2)] invalidate_new ..
    have 7: "drawnBefore uuid4 c \<longrightarrow> uuid4 kk \<notin> inviteuid ` set (invitesDB c)"
    proof
      assume "drawnBefore uuid4 c"
      then show "uuid4 kk \<notin> inviteuid ` set (invitesDB c)"
        using kk(1) by (intro drawnBefore_fresh [OF assms(2)])
    qed
    have "\<exists>k. uuidsDrawn c \<le> k \<and>
           filter (\<lambda>x. userid x = p) ?fin =
             [Invite (uuid4 k) p (inviteAccessMapFromXML newACL)
                (if validUserIDForShare pfcua p = None then ''INVALID'' else ''NEEDS-ACTION'')
                summ] \<and>
           (drawnBefore uuid4 c \<longrightarrow> uuid4 k \<notin> inviteuid ` set (invitesDB c))"
      by (rule exI [where x = kk], rule conjI, rule kk(1), rule conjI, rule 6, rule 7)
    with 4 5 show ?thesis by (intro conjI)
  qed
  have B: "u \<in> snd (snd ?app) \<and> u \<notin> fst (snd ?app) \<and>
        (\<forall>aceOLD c'. inviteUserUpdateToShare pfcua uuid4 u aceOLD newACL summ c' =
           (False, c'\<lparr>calls := calls c' @ [InviteUserUpdateToShare u]\<rparr>)) \<and>
        (\<forall>r \<in> set ?fin. userid r = u \<longrightarrow> state r = ''INVALID'') \<and>
        (drawnBefore uuid4 c \<and>
         (\<forall>u' \<in> set (map fst setDict). validUserIDForShare pfcua u' \<noteq> Some u) \<longrightarrow>
           (\<forall>r \<in> set (invitesDB c). userid r = u \<longrightarrow>
              Invite (inviteuid r) u (access r) ''INVALID'' (summary r) \<in> set ?fin))"
    if v: "validUserIDForShare pfcua u = None"
  proof -
    have b1: "u \<in> snd (snd ?app)" unfolding users using 3 v by simp
    have b2: "u \<notin> fst (snd ?app)" unfolding users using 2 v by simp
    have b3: "\<forall>aceOLD c'. inviteUserUpdateToShare pfcua uuid4 u aceOLD newACL summ c' =
           (False, c'\<lparr>calls := calls c' @ [InviteUserUpdateToShare u]\<rparr>)"
      by (simp add: inviteUserUpdateToShare_None [OF v])
    have b4: "\<forall>r \<in> set ?fin. userid r = u \<longrightarrow> state r = ''INVALID''"
    proof (intro ballI impI)
      fix r assume "r \<in> set ?fin" and ru: "userid r = u"
      then obtain r0 where r0: "r0 \<in> set (invitesDB (fst ?app))" "r = invalidate pfcua r0"
        unfolding fin S by blast
      have "userid r0 = u" using ru r0(2) by simp
      then have "validUserIDForShare pfcua (userid r0) = None" using v by simp
      then have "invalidate pfcua r0 =
          Invite (inviteuid r0) (userid r0) (access r0) ''INVALID'' (summary r0)"
        by (rule invalidate_None)
      then show "state r = ''INVALID''" using r0(2) by simp
    qed
    have b5: "drawnBefore uuid4 c \<and>
         (\<forall>u' \<in> set (map fst setDict). validUserIDForShare pfcua u' \<noteq> Some u) \<longrightarrow>
           (\<forall>r \<in> set (invitesDB c). userid r = u \<longrightarrow>
              Invite (inviteuid r) u (access r) ''INVALID'' (summary r) \<in> set ?fin)"
    proof (intro impI ballI, elim conjE)
      fix r
      assume dr: "drawnBefore uuid4 c"
        and nr: "\<forall>u' \<in> set (map fst setDict). validUserIDForShare pfcua u' \<noteq> Some u"
        and r: "r \<in> set (invitesDB c)" and ru: "userid r = u"
      have n1: "userid r \<notin> set (map fst ?rd)" using 2 ru by simp
      have sub1: "set (map fst ?sd) \<subseteq> set (map fst setDict)" unfolding k(1) by auto
      have sub2: "set (map fst ?ud) \<subseteq> set (map fst setDict)"
        unfolding k(3) sameUserid_props(2) [OF d(2)] by auto
      have n2: "\<forall>u' \<in> set (map fst ?sd). validUserIDForShare pfcua u' \<noteq> Some (userid r)"
        using nr sub1 unfolding ru by blast
      have n3: "\<forall>u' \<in> set (map fst ?ud). validUserIDForShare pfcua u' \<noteq> Some (userid r)"
        using nr sub2 unfolding ru by blast
      have "r \<in> set (invitesDB (fst ?app))"
        by (rule applyInvites_keeps [OF assms(2) dr r n1 n2 n3])
      then have "invalidate pfcua r \<in> invalidate pfcua ` set (invitesDB (fst ?app))"
        by (rule imageI)
      moreover have "validUserIDForShare pfcua (userid r) = None" using v ru by simp
      then have "invalidate pfcua r =
          Invite (inviteuid r) (userid r) (access r) ''INVALID'' (summary r)"
        by (rule invalidate_None)
      ultimately show "Invite (inviteuid r) u (access r) ''INVALID'' (summary r) \<in> set ?fin"
        unfolding fin S ru by simp
    qed
    from b1 b2 b3 b4 b5 show ?thesis by (intro conjI)
  qed
  have A': "\<forall>p. validUserIDForShare pfcua u = Some p \<and>
          (\<forall>u' \<in> set ?same. validUserIDForShare pfcua u' = Some p \<longrightarrow> u' = u) \<longrightarrow>
        u \<in> fst (snd ?app) \<and> u \<notin> snd (snd ?app) \<and>
        (\<exists>k. uuidsDrawn c \<le> k \<and>
           filter (\<lambda>x. userid x = p) ?fin =
             [Invite (uuid4 k) p (inviteAccessMapFromXML newACL)
                (if validUserIDForShare pfcua p = None then ''INVALID'' else ''NEEDS-ACTION'')
                summ] \<and>
           (drawnBefore uuid4 c \<longrightarrow> uuid4 k \<notin> inviteuid ` set (invitesDB c)))"
  proof (intro allI impI, elim conjE)
    fix p
    assume "validUserIDForShare pfcua u = Some p"
      and "\<forall>u' \<in> set ?same. validUserIDForShare pfcua u' = Some p \<longrightarrow> u' = u"
    then show "u \<in> fst (snd ?app) \<and> u \<notin> snd (snd ?app) \<and>
        (\<exists>k. uuidsDrawn c \<le> k \<and>
           filter (\<lambda>x. userid x = p) ?fin =
             [Invite (uuid4 k) p (inviteAccessMapFromXML newACL)
                (if validUserIDForShare pfcua p = None then ''INVALID'' else ''NEEDS-ACTION'')
                summ] \<and>
           (drawnBefore uuid4 c \<longrightarrow> uuid4 k \<notin> inviteuid ` set (invitesDB c)))"
      by (rule A)
  qed
  have B': "validUserIDForShare pfcua u = None \<longrightarrow>
        u \<in> snd (snd ?app) \<and> u \<notin> fst (snd ?app) \<and>
        (\<forall>aceOLD c'. inviteUserUpdateToShare pfcua uuid4 u aceOLD newACL summ c' =
           (False, c'\<lparr>calls := calls c' @ [InviteUserUpdateToShare u]\<rparr>)) \<and>
        (\<forall>r \<in> set ?fin. userid r = u \<longrightarrow> state r = ''INVALID'') \<and>
        (drawnBefore uuid4 c \<and>
         (\<forall>u' \<in> set (map fst setDict). validUserIDForShare pfcua u' \<noteq> Some u) \<longrightarrow>
           (\<forall>r \<in> set (invitesDB c). userid r = u \<longrightarrow>
              Invite (inviteuid r) u (access r) ''INVALID'' (summary r) \<in> set ?fin))"
    by (rule impI) (rule B)
  show ?thesis
    apply (rule exI [where x = ?sd])
    apply (rule exI [where x = ?rd])
    apply (rule exI [where x = ?ud])
    apply (intro conjI)
         apply (rule col)
        apply (rule 1)
       apply (rule 2)
      apply (rule 3)
     apply (rule A')
    apply (rule B')
    done
qed

text \<open>
  Claim C1, at the worked requests: one row for alice afterwards, under an invite uid that
  was not in the database; and the row of carol, who does not resolve, is kept and INVALID.
\<close>

theorem collapsed_update_outcome_witness:
  "(\<exists>k. uuidsDrawn example_collection \<le> k \<and>
      filter (\<lambda>x. userid x = ''/principals/users/alice'')
        (invitesDB (fst (processInviteDoc example_directory example_uuid4 example_request
           example_collection))) =
        [Invite (example_uuid4 k) ''/principals/users/alice'' ''read-write'' ''NEEDS-ACTION''
           ''s''] \<and>
      example_uuid4 k \<notin> inviteuid ` set (invitesDB example_collection)) \<and>
   Invite ''uu'' ''carol'' ''read-only'' ''INVALID'' ''c'' \<in>
     set (invitesDB (fst (processInviteDoc example_directory example_uuid4
        example_stale_request example_collection)))"
proof -
  have v: "validUserIDForShare example_directory ''mailto:alice@example.com'' =
        Some ''/principals/users/alice''"
    by (simp add: validUserIDForShare_def example_directory_def)
  have vp: "validUserIDForShare example_directory ''/principals/users/alice'' =
        Some ''/principals/users/alice''"
    by (simp add: validUserIDForShare_def example_directory_def)
  have m: "map_of [(''mailto:alice@example.com'', ReadWriteAccess, ''s''), (''nobody'', ReadAccess, ''x'')]
        ''mailto:alice@example.com'' = Some (ReadWriteAccess, ''s'')"
    by simp
  have r: "''mailto:alice@example.com'' \<in>
        set (map fst [(''mailto:alice@example.com'', None :: accessElement set option), (''bob'', None)])"
    by simp
  have u: "\<forall>u' \<in> set (sameUseridInRemoveAndSet
        [(''mailto:alice@example.com'', ReadWriteAccess, ''s''), (''nobody'', ReadAccess, ''x'')]
        [(''mailto:alice@example.com'', None), (''bob'', None)]).
        validUserIDForShare example_directory u' = Some ''/principals/users/alice'' \<longrightarrow>
        u' = ''mailto:alice@example.com''"
    by (simp add: sameUseridInRemoveAndSet_def)
  have 1: "\<exists>k. uuidsDrawn example_collection \<le> k \<and>
      filter (\<lambda>x. userid x = ''/principals/users/alice'')
        (invitesDB (fst (processInviteDoc example_directory example_uuid4 example_request
           example_collection))) =
        [Invite (example_uuid4 k) ''/principals/users/alice'' ''read-write'' ''NEEDS-ACTION''
           ''s''] \<and>
      example_uuid4 k \<notin> inviteuid ` set (invitesDB example_collection)"
    using collapsed_update_outcome [OF example_db_ok example_uuid4_inj example_parsed m r,
        of example_directory] v vp u example_drawnBefore
    by (elim exE conjE) simp
  have vc: "validUserIDForShare example_directory ''carol'' = None"
    by (simp add: validUserIDForShare_def example_directory_def)
  have mc: "map_of [(''carol'', ReadWriteAccess, ''t'')] ''carol'' = Some (ReadWriteAccess, ''t'')"
    by simp
  have rc: "''carol'' \<in> set (map fst [(''carol'', None :: accessElement set option)])"
    by simp
  have nc: "\<forall>u' \<in> set (map fst [(''carol'', ReadWriteAccess, ''t'')]).
      validUserIDForShare example_directory u' \<noteq> Some ''carol''"
    by (simp add: validUserIDForShare_def example_directory_def)
  have row: "Invite ''uu'' ''carol'' ''read-only'' ''ACCEPTED'' ''c'' \<in>
      set (invitesDB example_collection)"
    by (simp add: example_collection_def)
  have 2: "Invite ''uu'' ''carol'' ''read-only'' ''INVALID'' ''c'' \<in>
     set (invitesDB (fst (processInviteDoc example_directory example_uuid4
        example_stale_request example_collection)))"
    using collapsed_update_outcome [OF example_db_ok example_uuid4_inj example_stale_parsed mc rc,
        of example_directory] vc nc example_drawnBefore row
    by (elim exE conjE) force
  from 1 2 show ?thesis by (rule conjI)
qed

text \<open>
  Claim C1 as worded fails when the collapsed user id resolves to no principal: the update
  is refused, the user is reported as bad, and no row is stored.
\<close>

theorem collapsed_update_unresolved_counterexample:
  "parseInviteDoc
     [InviteSet [HRef [PCDATAElement ''alice''], AccessElement ReadWriteAccess,
                 InviteSummary [PCDATAElement ''s'']],
      InviteRemove [HRef [PCDATAElement ''alice'']]] [] [] =
     Inr ([(''alice'', ReadWriteAccess, ''s'')], [(''alice'', None)]) \<and>
   collapse (sameUseridInRemoveAndSet [(''alice'', ReadWriteAccess, ''s'')] [(''alice'', None)])
     [(''alice'', ReadWriteAccess, ''s'')] [(''alice'', None)] [] =
     Inr ([], [], [(''alice'', None, ReadWriteAccess, ''s'')]) \<and>
   applyInvites (\<lambda>u. None) example_uuid4 [] [] [(''alice'', None, ReadWriteAccess, ''s'')]
     \<lparr>sharedOwner = True, invitesDB = [], uuidsDrawn = 0, calls = []\<rparr> =
     (\<lparr>sharedOwner = True, invitesDB = [], uuidsDrawn = 0,
        calls = [InviteUserUpdateToShare ''alice'']\<rparr>, {}, {''alice''}) \<and>
   processInviteDoc (\<lambda>u. None) example_uuid4
     [InviteSet [HRef [PCDATAElement ''alice''], AccessElement ReadWriteAccess,
                 InviteSummary [PCDATAElement ''s'']],
      InviteRemove [HRef [PCDATAElement ''alice'']]]
     \<lparr>sharedOwner = True, invitesDB = [], uuidsDrawn = 0, calls = []\<rparr> =
     (\<lparr>sharedOwner = True, invitesDB = [], uuidsDrawn = 0,
        calls = [InviteUserUpdateToShare ''alice'', ValidateInvites]\<rparr>,
      Inr (MultiStatusResponse [(''alice'', FORBIDDEN)]))"
  by code_simp

text \<open>
  Claim C2 (amended). For a parsed and collapsed request: every user id that the request
  sets and that resolves to no principal is among the bad users and not among the ok ones,
  whether the request also removes it or not. Every user id that the request removes and
  does not set is among the ok users and not among the bad ones, whatever it resolves to
  and whatever the database holds; the removals delete the rows of exactly these user ids.
  A user id that the request both removes and sets is validated: it is among the bad users
  when it resolves to no principal, and among the ok users otherwise. When no user id that
  the request sets resolves, the database after the three phases is the database after the
  removals, and no invite uid has been drawn. \<^verbatim>\<open>inviteUserToShare\<close> and
  \<^verbatim>\<open>inviteUserUpdateToShare\<close> of an unresolved user id return False and leave the database
  as it was; \<^verbatim>\<open>uninviteUserToShare\<close> consults no directory, deletes the rows of the user id,
  keeps all others and returns True.
\<close>

theorem set_validates_plain_remove_does_not:
  assumes "parseInviteDoc invitedoc [] [] = Inr (setDict, removeDict)"
    and "collapse (sameUseridInRemoveAndSet setDict removeDict) setDict removeDict [] =
           Inr (sd, rd, ud)"
    and "applyInvites pfcua uuid4 sd rd ud c = (c3, okusers, badusers)"
  shows "(\<forall>u \<in> set (map fst setDict).
            validUserIDForShare pfcua u = None \<longrightarrow> u \<in> badusers \<and> u \<notin> okusers) \<and>
         (\<forall>u \<in> set (map fst removeDict).
            u \<notin> set (map fst setDict) \<longrightarrow> u \<in> okusers \<and> u \<notin> badusers) \<and>
         (\<forall>u \<in> set (map fst removeDict).
            u \<in> set (map fst setDict) \<longrightarrow>
            (u \<in> badusers) = (validUserIDForShare pfcua u = None) \<and>
            (u \<in> okusers) = (validUserIDForShare pfcua u \<noteq> None)) \<and>
         invitesDB (fst (removeLoop rd c ({}, {}))) =
           filter (\<lambda>x. \<not> (userid x \<in> set (map fst removeDict) \<and>
                          userid x \<notin> set (map fst setDict))) (invitesDB c) \<and>
         ((\<forall>u \<in> set (map fst setDict). validUserIDForShare pfcua u = None) \<longrightarrow>
            invitesDB c3 =
              filter (\<lambda>x. \<not> (userid x \<in> set (map fst removeDict) \<and>
                             userid x \<notin> set (map fst setDict))) (invitesDB c) \<and>
            uuidsDrawn c3 = uuidsDrawn c) \<and>
         (\<forall>u ace summ c'. validUserIDForShare pfcua u = None \<longrightarrow>
            inviteUserToShare pfcua uuid4 u ace summ c' =
              (False, c'\<lparr>calls := calls c' @ [InviteUserToShare u]\<rparr>)) \<and>
         (\<forall>u aceOLD aceNEW summ c'. validUserIDForShare pfcua u = None \<longrightarrow>
            inviteUserUpdateToShare pfcua uuid4 u aceOLD aceNEW summ c' =
              (False, c'\<lparr>calls := calls c' @ [InviteUserUpdateToShare u]\<rparr>)) \<and>
         (\<forall>u ace c'. uninviteUserToShare u ace c' =
              (True, c'\<lparr>invitesDB := filter (\<lambda>x. userid x \<noteq> u) (invitesDB c'),
                         calls := calls c' @ [UninviteUserToShare u]\<rparr>))"
proof -
  have d: "distinct (map fst setDict)" "distinct (map fst removeDict)"
    using parsed_distinct [OF assms(1)] by simp_all
  note k = collapsed_keys [OF d assms(2)]
  have ks: "set (map fst sd) = set (map fst setDict) - set (map fst removeDict)"
    unfolding k(1) by auto
  have kr: "set (map fst rd) = set (map fst removeDict) - set (map fst setDict)"
    unfolding k(2) by auto
  have ku: "set (map fst ud) = set (map fst setDict) \<inter> set (map fst removeDict)"
    unfolding k(3) by (rule sameUserid_props(2) [OF d(2)])
  have users: "okusers = set (map fst rd)
        \<union> {u \<in> set (map fst sd). validUserIDForShare pfcua u \<noteq> None}
        \<union> {u \<in> set (map fst ud). validUserIDForShare pfcua u \<noteq> None}"
    "badusers = {u \<in> set (map fst sd). validUserIDForShare pfcua u = None}
        \<union> {u \<in> set (map fst ud). validUserIDForShare pfcua u = None}"
    using applyInvites_users [of pfcua uuid4 sd rd ud c] unfolding assms(3) by simp_all
  have 1: "\<forall>u \<in> set (map fst setDict).
            validUserIDForShare pfcua u = None \<longrightarrow> u \<in> badusers \<and> u \<notin> okusers"
    unfolding users ks kr ku by auto
  have 2: "\<forall>u \<in> set (map fst removeDict).
            u \<notin> set (map fst setDict) \<longrightarrow> u \<in> okusers \<and> u \<notin> badusers"
    unfolding users ks kr ku by auto
  have 3: "\<forall>u \<in> set (map fst removeDict).
            u \<in> set (map fst setDict) \<longrightarrow>
            (u \<in> badusers) = (validUserIDForShare pfcua u = None) \<and>
            (u \<in> okusers) = (validUserIDForShare pfcua u \<noteq> None)"
    unfolding users ks kr ku by auto
  have f: "(\<lambda>x. userid x \<notin> set (map fst rd)) =
      (\<lambda>x. \<not> (userid x \<in> set (map fst removeDict) \<and> userid x \<notin> set (map fst setDict)))"
    unfolding kr by auto
  have 4: "invitesDB (fst (removeLoop rd c ({}, {}))) =
           filter (\<lambda>x. \<not> (userid x \<in> set (map fst removeDict) \<and>
                          userid x \<notin> set (map fst setDict))) (invitesDB c)"
    unfolding f [symmetric] by (simp add: removeLoop_eq)
  have 5: "(\<forall>u \<in> set (map fst setDict). validUserIDForShare pfcua u = None) \<longrightarrow>
            invitesDB c3 =
              filter (\<lambda>x. \<not> (userid x \<in> set (map fst removeDict) \<and>
                             userid x \<notin> set (map fst setDict))) (invitesDB c) \<and>
            uuidsDrawn c3 = uuidsDrawn c"
  proof
    assume a: "\<forall>u \<in> set (map fst setDict). validUserIDForShare pfcua u = None"
    have a1: "\<forall>u \<in> set (map fst sd). validUserIDForShare pfcua u = None"
      using a unfolding ks by blast
    have a2: "\<forall>u \<in> set (map fst ud). validUserIDForShare pfcua u = None"
      using a unfolding ku by blast
    have c3: "c3 = fst (applyInvites pfcua uuid4 sd rd ud c)" unfolding assms(3) by simp
    show "invitesDB c3 =
              filter (\<lambda>x. \<not> (userid x \<in> set (map fst removeDict) \<and>
                             userid x \<notin> set (map fst setDict))) (invitesDB c) \<and>
            uuidsDrawn c3 = uuidsDrawn c"
      unfolding f [symmetric] c3 by (rule applyInvites_unresolved [OF a1 a2])
  qed
  have 6: "\<forall>u ace summ c'. validUserIDForShare pfcua u = None \<longrightarrow>
            inviteUserToShare pfcua uuid4 u ace summ c' =
              (False, c'\<lparr>calls := calls c' @ [InviteUserToShare u]\<rparr>)"
    by (simp add: inviteUserToShare_None)
  have 7: "\<forall>u aceOLD aceNEW summ c'. validUserIDForShare pfcua u = None \<longrightarrow>
            inviteUserUpdateToShare pfcua uuid4 u aceOLD aceNEW summ c' =
              (False, c'\<lparr>calls := calls c' @ [InviteUserUpdateToShare u]\<rparr>)"
    by (simp add: inviteUserUpdateToShare_None)
  have 8: "\<forall>u ace c'. uninviteUserToShare u ace c' =
              (True, c'\<lparr>invitesDB := filter (\<lambda>x. userid x \<noteq> u) (invitesDB c'),
                         calls := calls c' @ [UninviteUserToShare u]\<rparr>)"
    by (simp add: uninviteUserToShare_eq removeRecordForUserID_def)
  from 1 2 3 4 5 6 7 8 show ?thesis by (intro conjI)
qed

text \<open>
  Claim C2, at the worked request: the unknown user is bad, the removal of bob is ok, and
  alice, removed and set, resolves and is ok.
\<close>

theorem set_validates_plain_remove_does_not_witness:
  "''nobody'' \<in> snd (snd (applyInvites example_directory example_uuid4
       [(''nobody'', ReadAccess, ''x'')] [(''bob'', None)]
       [(''mailto:alice@example.com'', None, ReadWriteAccess, ''s'')] example_collection)) \<and>
   ''bob'' \<in> fst (snd (applyInvites example_directory example_uuid4
       [(''nobody'', ReadAccess, ''x'')] [(''bob'', None)]
       [(''mailto:alice@example.com'', None, ReadWriteAccess, ''s'')] example_collection)) \<and>
   ''mailto:alice@example.com'' \<in> fst (snd (applyInvites example_directory example_uuid4
       [(''nobody'', ReadAccess, ''x'')] [(''bob'', None)]
       [(''mailto:alice@example.com'', None, ReadWriteAccess, ''s'')] example_collection))"
proof -
  have v: "validUserIDForShare example_directory ''nobody'' = None"
    by (simp add: validUserIDForShare_def example_directory_def)
  have va: "validUserIDForShare example_directory ''mailto:alice@example.com'' =
        Some ''/principals/users/alice''"
    by (simp add: validUserIDForShare_def example_directory_def)
  from set_validates_plain_remove_does_not [OF example_parsed example_collapsed example_applied]
  show ?thesis unfolding example_applied using v va by simp
qed

text \<open>
  Claim C2 as worded fails for a removal whose user id the request also sets: carol does
  not resolve, her removal is not carried out, she is reported as bad and her row stays.
\<close>

theorem collapsed_remove_is_validated_counterexample:
  "validUserIDForShare example_directory ''carol'' = None \<and>
   parseInviteDoc example_stale_request [] [] =
     Inr ([(''carol'', ReadWriteAccess, ''t'')], [(''carol'', None)]) \<and>
   processInviteDoc example_directory example_uuid4 example_stale_request example_collection =
     (\<lparr>sharedOwner = True,
        invitesDB = [Invite ''u'' ''/principals/users/alice'' ''read-only'' ''ACCEPTED'' ''a'',
                     Invite ''uu'' ''carol'' ''read-only'' ''INVALID'' ''c''],
        uuidsDrawn = 2,
        calls = [InviteUserUpdateToShare ''carol'', ValidateInvites]\<rparr>,
      Inr (MultiStatusResponse [(''carol'', FORBIDDEN)]))"
  unfolding example_directory_def example_uuid4_def example_collection_def
    example_stale_request_def
  by code_simp

text \<open>
  Claim C3. After a request that parses, on a database with unique user ids and invite
  uids: every stored invite whose user id resolves to no principal has state INVALID; the
  invites whose user id resolves are exactly those that the three phases left, unchanged;
  and running \<^verbatim>\<open>validateInvites\<close> again leaves the database as it is.
\<close>

theorem validation_sweep_after_batch:
  assumes "db_ok (invitesDB c)"
    and "parseInviteDoc invitedoc [] [] = Inr (setDict, removeDict)"
    and "collapse (sameUseridInRemoveAndSet setDict removeDict) setDict removeDict [] =
           Inr (sd, rd, ud)"
  shows "(\<forall>r \<in> set (invitesDB (fst (processInviteDoc pfcua uuid4 invitedoc c))).
            validUserIDForShare pfcua (userid r) = None \<longrightarrow> state r = ''INVALID'') \<and>
         (\<forall>r \<in> set (invitesDB (fst (applyInvites pfcua uuid4 sd rd ud c))).
            validUserIDForShare pfcua (userid r) \<noteq> None \<longrightarrow>
            r \<in> set (invitesDB (fst (processInviteDoc pfcua uuid4 invitedoc c)))) \<and>
         (\<forall>r \<in> set (invitesDB (fst (processInviteDoc pfcua uuid4 invitedoc c))).
            validUserIDForShare pfcua (userid r) \<noteq> None \<longrightarrow>
            r \<in> set (invitesDB (fst (applyInvites pfcua uuid4 sd rd ud c)))) \<and>
         invitesDB (validateInvites pfcua (fst (processInviteDoc pfcua uuid4 invitedoc c))) =
           invitesDB (fst (processInviteDoc pfcua uuid4 invitedoc c))"
proof -
  let ?c3 = "fst (applyInvites pfcua uuid4 sd rd ud c)"
  have fin: "fst (processInviteDoc pfcua uuid4 invitedoc c) = validateInvites pfcua ?c3"
    by (simp add: processInviteDoc_eq [OF assms(2,3)])
  have ok3: "db_ok (invitesDB ?c3)" using assms(1) by (rule applyInvites_db_ok)
  note S = validateInvites_set(1) [OF ok3, of pfcua]
  have 1: "\<forall>r \<in> set (invitesDB (validateInvites pfcua ?c3)).
            validUserIDForShare pfcua (userid r) = None \<longrightarrow> state r = ''INVALID''"
    unfolding S by (auto simp: invalidate_def)
  have 2: "\<forall>r \<in> set (invitesDB ?c3).
            validUserIDForShare pfcua (userid r) \<noteq> None \<longrightarrow>
            r \<in> set (invitesDB (validateInvites pfcua ?c3))"
  proof (intro ballI impI)
    fix r assume r: "r \<in> set (invitesDB ?c3)"
      and v: "validUserIDForShare pfcua (userid r) \<noteq> None"
    have "invalidate pfcua r \<in> invalidate pfcua ` set (invitesDB ?c3)"
      using r by (rule imageI)
    then show "r \<in> set (invitesDB (validateInvites pfcua ?c3))"
      unfolding S invalidate_valid [OF v] .
  qed
  have 3: "\<forall>r \<in> set (invitesDB (validateInvites pfcua ?c3)).
            validUserIDForShare pfcua (userid r) \<noteq> None \<longrightarrow> r \<in> set (invitesDB ?c3)"
  proof (intro ballI impI)
    fix r assume "r \<in> set (invitesDB (validateInvites pfcua ?c3))"
      and v: "validUserIDForShare pfcua (userid r) \<noteq> None"
    then obtain r0 where r0: "r0 \<in> set (invitesDB ?c3)" "r = invalidate pfcua r0"
      unfolding S by blast
    then have "validUserIDForShare pfcua (userid r0) \<noteq> None" using v by simp
    then have "invalidate pfcua r0 = r0" by (rule invalidate_valid)
    with r0 show "r \<in> set (invitesDB ?c3)" by simp
  qed
  have 4: "invitesDB (validateInvites pfcua (validateInvites pfcua ?c3)) =
           invitesDB (validateInvites pfcua ?c3)"
    using ok3 by (rule validateInvites_idem)
  show ?thesis
    unfolding fin using 1 2 3 4 by simp
qed

text \<open>Claim C3, at the worked request: a second sweep changes nothing.\<close>

theorem validation_sweep_after_batch_witness:
  "invitesDB (validateInvites example_directory
      (fst (processInviteDoc example_directory example_uuid4 example_request example_collection))) =
   invitesDB (fst (processInviteDoc example_directory example_uuid4 example_request
      example_collection))"
  using validation_sweep_after_batch [OF example_db_ok example_parsed example_collapsed,
      where pfcua = example_directory and ?uuid4.0 = example_uuid4]
  by (elim conjE)



text \<open>
  Claim C5 (amended). On a database with unique user ids and invite uids,
  \<^verbatim>\<open>addOrUpdateRecord\<close>, \<^verbatim>\<open>removeRecordForUserID\<close> and \<^verbatim>\<open>removeRecordForInviteUID\<close> keep
  both unique, and the empty database has unique keys; so a database holds at most one row
  for a user id and at most one for an invite uid. After \<^verbatim>\<open>addOrUpdateRecord\<close> the only
  row of the record's user id and the only row of the record's invite uid is the record
  itself, all fields as given; the rows kept from before are exactly those that have
  neither the user id nor the invite uid of the record. When no row of another user has
  the record's invite uid, the rows of all other users are as before. The two removals
  delete the rows of the given user id, or invite uid, and no others.
\<close>

theorem invite_store_replaces_on_both_keys:
  assumes "db_ok db"
  shows "db_ok (addOrUpdateRecord r db) \<and>
     db_ok (removeRecordForUserID u db) \<and>
     db_ok (removeRecordForInviteUID i db) \<and>
     db_ok [] \<and>
     length (filter (\<lambda>x. userid x = u) db) \<le> 1 \<and>
     length (filter (\<lambda>x. inviteuid x = i) db) \<le> 1 \<and>
     filter (\<lambda>x. userid x = userid r) (addOrUpdateRecord r db) = [r] \<and>
     filter (\<lambda>x. inviteuid x = inviteuid r) (addOrUpdateRecord r db) = [r] \<and>
     set (addOrUpdateRecord r db) =
       insert r {x \<in> set db. userid x \<noteq> userid r \<and> inviteuid x \<noteq> inviteuid r} \<and>
     ((\<forall>x \<in> set db. inviteuid x = inviteuid r \<longrightarrow> userid x = userid r) \<longrightarrow>
        filter (\<lambda>x. userid x \<noteq> userid r) (addOrUpdateRecord r db) =
        filter (\<lambda>x. userid x \<noteq> userid r) db) \<and>
     removeRecordForUserID u db = filter (\<lambda>x. userid x \<noteq> u) db \<and>
     removeRecordForInviteUID i db = filter (\<lambda>x. inviteuid x \<noteq> i) db"
proof -
  have d: "distinct (map userid db)" "distinct (map inviteuid db)"
    using assms by (simp_all add: db_ok_def)
  have 1: "length (filter (\<lambda>x. userid x = u) db) \<le> 1"
    using d(1) by (rule distinct_map_filter_le1)
  have 2: "length (filter (\<lambda>x. inviteuid x = i) db) \<le> 1"
    using d(2) by (rule distinct_map_filter_le1)
  have 3: "db_ok []" by (simp add: db_ok_def)
  have 4: "db_ok (addOrUpdateRecord r db)" using assms by (rule db_ok_addOrUpdateRecord)
  have 5: "db_ok (removeRecordForUserID u db)" "db_ok (removeRecordForInviteUID i db)"
    using assms by (simp_all add: removeRecordForUserID_def removeRecordForInviteUID_def db_ok_filter)
  have 6: "(\<forall>x \<in> set db. inviteuid x = inviteuid r \<longrightarrow> userid x = userid r) \<longrightarrow>
        filter (\<lambda>x. userid x \<noteq> userid r) (addOrUpdateRecord r db) =
        filter (\<lambda>x. userid x \<noteq> userid r) db"
    by (intro impI filter_others_addOrUpdateRecord)
  have 7: "removeRecordForUserID u db = filter (\<lambda>x. userid x \<noteq> u) db"
    "removeRecordForInviteUID i db = filter (\<lambda>x. inviteuid x \<noteq> i) db"
    by (simp_all add: removeRecordForUserID_def removeRecordForInviteUID_def)
  show ?thesis
    apply (intro conjI)
    apply (rule 4)
    apply (rule 5(1))
    apply (rule 5(2))
    apply (rule 3)
    apply (rule 1)
    apply (rule 2)
    apply (rule filter_userid_addOrUpdateRecord)
    apply (rule filter_inviteuid_addOrUpdateRecord)
    apply (rule set_addOrUpdateRecord)
    apply (rule 6)
    apply (rule 7(1))
    apply (rule 7(2))
    done
qed

text \<open>
  Claim C5: the accepted invite of alice is replaced by the new record and the invite of
  carol is kept.
\<close>

theorem invite_store_replaces_on_both_keys_witness:
  "addOrUpdateRecord
     (Invite ''uuu'' ''/principals/users/alice'' ''read-write'' ''NEEDS-ACTION'' ''s'')
     (invitesDB example_collection) =
   [Invite ''uu'' ''carol'' ''read-only'' ''ACCEPTED'' ''c'',
    Invite ''uuu'' ''/principals/users/alice'' ''read-write'' ''NEEDS-ACTION'' ''s''] \<and>
   filter (\<lambda>x. userid x \<noteq> ''/principals/users/alice'')
     (addOrUpdateRecord
        (Invite ''uuu'' ''/principals/users/alice'' ''read-write'' ''NEEDS-ACTION'' ''s'')
        (invitesDB example_collection)) =
   [Invite ''uu'' ''carol'' ''read-only'' ''ACCEPTED'' ''c'']"
proof -
  have n: "\<forall>x \<in> set (invitesDB example_collection).
      inviteuid x = inviteuid (Invite ''uuu'' ''/principals/users/alice'' ''read-write''
        ''NEEDS-ACTION'' ''s'') \<longrightarrow>
      userid x = userid (Invite ''uuu'' ''/principals/users/alice'' ''read-write''
        ''NEEDS-ACTION'' ''s'')"
    by (simp add: example_collection_def)
  have e: "addOrUpdateRecord
     (Invite ''uuu'' ''/principals/users/alice'' ''read-write'' ''NEEDS-ACTION'' ''s'')
     (invitesDB example_collection) =
   [Invite ''uu'' ''carol'' ''read-only'' ''ACCEPTED'' ''c'',
    Invite ''uuu'' ''/principals/users/alice'' ''read-write'' ''NEEDS-ACTION'' ''s'']"
    by (simp add: example_collection_def addOrUpdateRecord_def)
  from invite_store_replaces_on_both_keys [OF example_db_ok,
      of "Invite ''uuu'' ''/principals/users/alice'' ''read-write'' ''NEEDS-ACTION'' ''s''"
         "''carol''" "''uu''"] n e
  show ?thesis by (simp add: example_collection_def)
qed

text \<open>
  Claim C5 as worded fails when the record's invite uid is that of another user's row: the
  upsert for alice deletes the row of bob.
\<close>

theorem upsert_deletes_other_user_counterexample:
  "db_ok [Invite ''i'' ''bob'' ''read-only'' ''ACCEPTED'' ''b'',
          Invite ''j'' ''carol'' ''read-only'' ''ACCEPTED'' ''c''] \<and>
   addOrUpdateRecord (Invite ''i'' ''alice'' ''read-write'' ''NEEDS-ACTION'' ''a'')
     [Invite ''i'' ''bob'' ''read-only'' ''ACCEPTED'' ''b'',
      Invite ''j'' ''carol'' ''read-only'' ''ACCEPTED'' ''c''] =
     [Invite ''j'' ''carol'' ''read-only'' ''ACCEPTED'' ''c'',
      Invite ''i'' ''alice'' ''read-write'' ''NEEDS-ACTION'' ''a''] \<and>
   filter (\<lambda>x. userid x = ''bob'')
     (addOrUpdateRecord (Invite ''i'' ''alice'' ''read-write'' ''NEEDS-ACTION'' ''a'')
        [Invite ''i'' ''bob'' ''read-only'' ''ACCEPTED'' ''b'',
         Invite ''j'' ''carol'' ''read-only'' ''ACCEPTED'' ''c'']) = []"
  by (simp add: db_ok_def addOrUpdateRecord_def)

text \<open>
  Claim C6. Under the default access control list of any resource, \<^verbatim>\<open>checkPrivileges\<close>
  gives the answer that the table \<^verbatim>\<open>_authReadOnlyPrivileges\<close> expects in every row:
  Read is granted to Authenticated; Write is denied to Authenticated; Read and Write are
  denied to Unauthenticated and to All.
\<close>

theorem default_acl_auth_read_only:
  "map (\<lambda>(requesting, p, allowed). checkPrivileges (defaultAccessControlList r) requesting p)
       authReadOnlyPrivileges =
   map (\<lambda>(requesting, p, allowed). allowed) authReadOnlyPrivileges \<and>
   checkPrivileges (defaultAccessControlList r) Authenticated Read \<and>
   \<not> checkPrivileges (defaultAccessControlList r) Authenticated Write \<and>
   \<not> checkPrivileges (defaultAccessControlList r) Unauthenticated Read \<and>
   \<not> checkPrivileges (defaultAccessControlList r) Unauthenticated Write \<and>
   \<not> checkPrivileges (defaultAccessControlList r) AllPrincipals Read \<and>
   \<not> checkPrivileges (defaultAccessControlList r) AllPrincipals Write"
  by (simp add: authReadOnlyPrivileges_def defaultAccessControlList_def)




text \<open>
  Claim C8. If a request holds a set operation without href, without access or without
  summary, then \<^verbatim>\<open>_processInviteDoc\<close> raises an error and leaves the collection as it
  was: no invite is touched and no operation on a user is called. The request as a whole
  is answered by the error response; the collection has been upgraded to a shared one
  before the request is read.
\<close>

theorem malformed_set_is_fatal_before_mutation:
  assumes "InviteSet children \<in> set invitedoc"
    and "handleInviteSet_loop children (None, None, None) = (u, a, s)"
    and "u = None \<or> a = None \<or> s = None"
  shows "\<exists>e. processInviteDoc pfcua uuid4 invitedoc c = (c, Inl e) \<and>
     handleInvite pfcua uuid4 invitedoc c =
       (c\<lparr>sharedOwner := True\<rparr>, handleErrorResponse e) \<and>
     handleErrorResponse e \<noteq> Response OK"
proof -
  obtain e0 where "handleInviteSet children = Inl e0"
    using handleInviteSet_missing [OF assms(2,3)] by (rule exE)
  then obtain e where e: "parseInviteDoc invitedoc [] [] = Inl e"
    using parseInviteDoc_fail [OF assms(1), of e0 "[]" "[]"] by blast
  have p: "\<And>c'. processInviteDoc pfcua uuid4 invitedoc c' = (c', Inl e)"
    by (simp add: processInviteDoc_def e)
  have c0: "(if \<not> isShared c then snd (upgradeToShare c) else c) = c\<lparr>sharedOwner := True\<rparr>"
    by (simp add: isShared_def upgradeToShare_def)
  have h: "handleInvite pfcua uuid4 invitedoc c =
       (c\<lparr>sharedOwner := True\<rparr>, handleErrorResponse e)"
    unfolding handleInvite_def c0 Let_def p by simp
  have "handleErrorResponse e \<noteq> Response OK" by (cases e) simp_all
  with p h show ?thesis by blast
qed

text \<open>Claim C8: a set operation without summary, after a removal of bob.\<close>

theorem malformed_set_is_fatal_before_mutation_witness:
  "\<exists>e. processInviteDoc example_directory example_uuid4
          [InviteRemove [HRef [PCDATAElement ''bob'']],
           InviteSet [HRef [PCDATAElement ''mailto:alice@example.com''],
                      AccessElement ReadAccess]]
          example_collection = (example_collection, Inl e) \<and>
        handleInvite example_directory example_uuid4
          [InviteRemove [HRef [PCDATAElement ''bob'']],
           InviteSet [HRef [PCDATAElement ''mailto:alice@example.com''],
                      AccessElement ReadAccess]]
          example_collection =
          (example_collection\<lparr>sharedOwner := True\<rparr>, handleErrorResponse e) \<and>
        handleErrorResponse e \<noteq> Response OK"
proof (rule malformed_set_is_fatal_before_mutation [where children = "[HRef [PCDATAElement ''mailto:alice@example.com''],
      AccessElement ReadAccess]" and u = "Some ''mailto:alice@example.com''"
      and a = "Some ReadAccess" and s = None])
  show "InviteSet [HRef [PCDATAElement ''mailto:alice@example.com''], AccessElement ReadAccess]
      \<in> set [InviteRemove [HRef [PCDATAElement ''bob'']],
           InviteSet [HRef [PCDATAElement ''mailto:alice@example.com''],
                      AccessElement ReadAccess]]"
    by simp
  show "handleInviteSet_loop
      [HRef [PCDATAElement ''mailto:alice@example.com''], AccessElement ReadAccess]
      (None, None, None) = (Some ''mailto:alice@example.com'', Some ReadAccess, None)"
    by simp
  show "Some ''mailto:alice@example.com'' = None \<or> Some ReadAccess = None \<or>
      (None :: string option) = None"
    by simp
qed

text \<open>
  Claim C9. \<^verbatim>\<open>allRecords\<close> returns the rows of the database in ascending order of user
  id. The response to a request that parses is the plain OK when there are no bad users,
  and otherwise a multistatus that lists the ok users in ascending order, each with OK,
  and then the bad users in ascending order, each with FORBIDDEN.
\<close>

theorem allRecords_sorted_and_response_order:
  assumes "parseInviteDoc invitedoc [] [] = Inr (setDict, removeDict)"
    and "collapse (sameUseridInRemoveAndSet setDict removeDict) setDict removeDict [] =
           Inr (sd, rd, ud)"
    and "applyInvites pfcua uuid4 sd rd ud c = (c3, okusers, badusers)"
  shows "sorted (map userid (allRecords db)) \<and> mset (allRecords db) = mset db \<and>
     snd (processInviteDoc pfcua uuid4 invitedoc c) =
       Inr (if badusers = {} then Response OK
            else MultiStatusResponse
                   (map (\<lambda>u. (u, OK)) (sorted_list_of_set okusers) @
                    map (\<lambda>u. (u, FORBIDDEN)) (sorted_list_of_set badusers))) \<and>
     sorted (sorted_list_of_set okusers) \<and> distinct (sorted_list_of_set okusers) \<and>
     set (sorted_list_of_set okusers) = okusers \<and>
     sorted (sorted_list_of_set badusers) \<and> distinct (sorted_list_of_set badusers) \<and>
     set (sorted_list_of_set badusers) = badusers"
proof -
  have fin: "finite okusers" "finite badusers"
    using applyInvites_finite [of pfcua uuid4 sd rd ud c] unfolding assms(3) by simp_all
  have resp: "snd (processInviteDoc pfcua uuid4 invitedoc c) = Inr (makeResponse okusers badusers)"
    unfolding processInviteDoc_eq [OF assms(1,2)] assms(3) by simp
  have srt: "sorted (map userid (allRecords db))" "mset (allRecords db) = mset db"
    by (simp_all add: allRecords_def)
  show ?thesis
    unfolding resp using fin srt by (simp add: makeResponse_def)
qed

text \<open>Claim C9, at the worked request.\<close>

theorem allRecords_sorted_and_response_order_witness:
  "snd (processInviteDoc example_directory example_uuid4 example_request example_collection) =
   Inr (MultiStatusResponse
     [(''bob'', OK), (''mailto:alice@example.com'', OK), (''nobody'', FORBIDDEN)])"
proof -
  have ok: "sorted_list_of_set {''bob'', ''mailto:alice@example.com''} =
      [''bob'', ''mailto:alice@example.com'']"
    by code_simp
  have bad: "sorted_list_of_set {''nobody''} = [''nobody'']"
    by code_simp
  from allRecords_sorted_and_response_order [OF example_parsed example_collapsed example_applied,
      of "invitesDB example_collection"]
  have "snd (processInviteDoc example_directory example_uuid4 example_request
          example_collection) =
       Inr (if {''nobody''} = {} then Response OK
            else MultiStatusResponse
                   (map (\<lambda>u. (u, OK))
                      (sorted_list_of_set {''bob'', ''mailto:alice@example.com''}) @
                    map (\<lambda>u. (u, FORBIDDEN)) (sorted_list_of_set {''nobody''})))"
    by (elim conjE)
  then show ?thesis unfolding ok bad by simp
qed

text \<open>
  Claim C10. When the user id resolves to the principal \<open>p\<close>, \<^verbatim>\<open>inviteUserToShare\<close>
  returns True and leaves exactly one row for \<open>p\<close>, whose state is NEEDS-ACTION and whose
  invite uid is the next one drawn from \<^verbatim>\<open>uuid4()\<close>, whatever row was there before;
  \<^verbatim>\<open>inviteUserUpdateToShare\<close> leaves the same database. When \<^verbatim>\<open>uuid4()\<close> never repeats
  and all stored invite uids were drawn from it, the new invite uid is none of the stored
  ones.
\<close>

theorem invite_resets_state_and_inviteuid:
  assumes "validUserIDForShare pfcua u = Some p"
  shows "inviteUserToShare pfcua uuid4 u ace summ c =
       (True, snd (inviteUserToShare pfcua uuid4 u ace summ c)) \<and>
     filter (\<lambda>x. userid x = p) (invitesDB (snd (inviteUserToShare pfcua uuid4 u ace summ c))) =
       [Invite (uuid4 (uuidsDrawn c)) p (inviteAccessMapFromXML ace) ''NEEDS-ACTION'' summ] \<and>
     uuidsDrawn (snd (inviteUserToShare pfcua uuid4 u ace summ c)) = Suc (uuidsDrawn c) \<and>
     invitesDB (snd (inviteUserUpdateToShare pfcua uuid4 u aceOLD ace summ c)) =
       invitesDB (snd (inviteUserToShare pfcua uuid4 u ace summ c)) \<and>
     (inj uuid4 \<and> drawnBefore uuid4 c \<longrightarrow>
        uuid4 (uuidsDrawn c) \<notin> inviteuid ` set (invitesDB c) \<and>
        drawnBefore uuid4 (snd (inviteUserToShare pfcua uuid4 u ace summ c)))"
proof -
  let ?r = "Invite (uuid4 (uuidsDrawn c)) p (inviteAccessMapFromXML ace) ''NEEDS-ACTION'' summ"
  have row: "filter (\<lambda>x. userid x = p) (addOrUpdateRecord ?r (invitesDB c)) = [?r]"
    using filter_userid_addOrUpdateRecord [of ?r "invitesDB c"] by simp
  have fresh: "uuid4 (uuidsDrawn c) \<notin> inviteuid ` set (invitesDB c)"
    if inj: "inj uuid4" and drawn: "drawnBefore uuid4 c"
  proof
    assume "uuid4 (uuidsDrawn c) \<in> inviteuid ` set (invitesDB c)"
    then obtain r where r: "r \<in> set (invitesDB c)" "inviteuid r = uuid4 (uuidsDrawn c)"
      by (auto simp: image_iff)
    then obtain k where k: "k < uuidsDrawn c" "inviteuid r = uuid4 k"
      using drawn unfolding drawnBefore_def by blast
    then have "uuid4 k = uuid4 (uuidsDrawn c)" using r(2) by simp
    then have "k = uuidsDrawn c" using inj by (simp add: inj_eq)
    with k(1) show False by simp
  qed
  have keep: "drawnBefore uuid4 (snd (inviteUserToShare pfcua uuid4 u ace summ c))"
    if drawn: "drawnBefore uuid4 c"
    unfolding drawnBefore_def inviteUserToShare_Some [OF assms]
  proof
    fix r
    assume "r \<in> set (invitesDB (snd (True, c\<lparr>invitesDB := addOrUpdateRecord ?r (invitesDB c),
        uuidsDrawn := Suc (uuidsDrawn c), calls := calls c @ [InviteUserToShare u]\<rparr>)))"
    then have "r = ?r \<or> r \<in> set (invitesDB c)"
      by (auto simp: addOrUpdateRecord_def)
    then show "\<exists>k<uuidsDrawn (snd (True, c\<lparr>invitesDB := addOrUpdateRecord ?r (invitesDB c),
        uuidsDrawn := Suc (uuidsDrawn c), calls := calls c @ [InviteUserToShare u]\<rparr>)).
        inviteuid r = uuid4 k"
    proof
      assume "r = ?r"
      then show ?thesis by (intro exI [where x = "uuidsDrawn c"]) simp
    next
      assume "r \<in> set (invitesDB c)"
      then obtain k where "k < uuidsDrawn c" "inviteuid r = uuid4 k"
        using drawn unfolding drawnBefore_def by blast
      then show ?thesis by (intro exI [where x = k]) simp
    qed
  qed
  show ?thesis
    using row fresh keep
    by (simp add: inviteUserToShare_Some [OF assms] inviteUserUpdateToShare_Some [OF assms])
qed

text \<open>Claim C10: the accepted invite of alice goes back to NEEDS-ACTION under a new uid.\<close>

theorem invite_resets_state_and_inviteuid_witness:
  "inj example_uuid4 \<and> drawnBefore example_uuid4 example_collection \<and>
   filter (\<lambda>x. userid x = ''/principals/users/alice'')
     (invitesDB (snd (inviteUserToShare example_directory example_uuid4
        ''mailto:alice@example.com'' ReadWriteAccess ''lunch'' example_collection))) =
     [Invite ''uuu'' ''/principals/users/alice'' ''read-write'' ''NEEDS-ACTION'' ''lunch''] \<and>
   ''uuu'' \<notin> inviteuid ` set (invitesDB example_collection)"
proof -
  have v: "validUserIDForShare example_directory ''mailto:alice@example.com'' =
        Some ''/principals/users/alice''"
    by (simp add: validUserIDForShare_def example_directory_def)
  have d: "drawnBefore example_uuid4 example_collection"
    unfolding drawnBefore_def example_collection_def example_uuid4_def
    by (simp add: Ex_less_Suc numeral_2_eq_2)
  have n: "example_uuid4 (uuidsDrawn example_collection) = ''uuu''"
    by (simp add: example_uuid4_def example_collection_def numeral_2_eq_2)
  from invite_resets_state_and_inviteuid [OF v, of example_uuid4 ReadWriteAccess "''lunch''" example_collection]
  show ?thesis
    unfolding n using example_uuid4_inj d by simp
qed

end
